theory Spec2Isabelle
  imports Complex_Main "HOL-Library.Word"
begin

unbundle bit_operations_syntax

section \<open>The I2S DMA buffer manager of core\_esp8266\_i2s.c\<close>

text \<open>
  The embedding follows \<^verbatim>\<open>cores/esp8266/core_esp8266_i2s.c\<close>. The file-scope variables
  of the C file are the fields of one record, every function takes that record and returns
  the new one. Two things the C program can do have no value in C itself and are made
  values here:
  \<^item> an access past the end of \<^verbatim>\<open>i2s_slc_queue\<close> (undefined behaviour in C, in practice
    the corruption of whatever the linker placed behind the array) is the fault
    \<open>Queue_Overrun\<close>;
  \<^item> the blocking writer spinning in its \<^verbatim>\<open>while(1)\<close> loop for ever is the fault
    \<open>Never_Returns\<close>.
  Neither is an error the C code reports: no function of the file has an error return.
\<close>

type_synonym u8 = "8 word"
type_synonym u32 = "32 word"
type_synonym i16 = "16 word"
type_synonym c_int = "32 word"

abbreviation SLC_BUF_CNT :: nat where "SLC_BUF_CNT \<equiv> 8"
abbreviation SLC_BUF_LEN :: nat where "SLC_BUF_LEN \<equiv> 64"

datatype fault = Queue_Overrun | Never_Returns

text \<open>The DMA descriptor \<^verbatim>\<open>struct slc_queue_item\<close>, bit fields as words of their width.\<close>

record slc_queue_item =
  blocksize :: "12 word"
  datalen :: "12 word"
  unused :: "5 word"
  sub_sof :: "1 word"
  eof :: "1 word"
  owner :: "1 word"
  buf_ptr :: u32
  next_link_ptr :: u32

text \<open>
  The static variables. A C array is a function from the index; the model checks the index
  wherever the C code computes it. \<open>ram\<close> is the data memory that holds the sample
  buffers, one 32-bit word per word address (the buffers come from \<^verbatim>\<open>malloc\<close> and are
  word aligned, and the code only touches them a word at a time or through
  \<^verbatim>\<open>ets_memset\<close> over whole words). The callback is user code outside the file: the
  record keeps whether one is registered and how often it has been called.
\<close>

record slc_state =
  i2s_slc_queue :: "nat \<Rightarrow> u32"
  i2s_slc_queue_len :: u8
  i2s_slc_buf_pntr :: "nat \<Rightarrow> u32"
  i2s_slc_items :: "nat \<Rightarrow> slc_queue_item"
  i2s_curr_slc_buf :: u32
  i2s_curr_slc_buf_pos :: c_int
  i2s_callback :: bool
  callback_runs :: nat
  ram :: "u32 \<Rightarrow> u32"

subsection \<open>Status queries\<close>

definition i2s_is_full :: "slc_state \<Rightarrow> bool" where
  "i2s_is_full s \<longleftrightarrow>
     (i2s_curr_slc_buf_pos s = of_nat SLC_BUF_LEN \<or> i2s_curr_slc_buf s = 0)
     \<and> i2s_slc_queue_len s = 0"

definition i2s_is_empty :: "slc_state \<Rightarrow> bool" where
  "i2s_is_empty s \<longleftrightarrow> unat (i2s_slc_queue_len s) \<ge> SLC_BUF_CNT - 1"

text \<open>
  \<^verbatim>\<open>(SLC_BUF_CNT - i2s_slc_queue_len) * SLC_BUF_LEN\<close> is computed in \<^verbatim>\<open>int\<close> and
  returned as \<^verbatim>\<open>int16_t\<close>.
\<close>

definition i2s_available :: "slc_state \<Rightarrow> i16" where
  "i2s_available s =
     word_of_int ((int SLC_BUF_CNT - uint (i2s_slc_queue_len s)) * int SLC_BUF_LEN)"

subsection \<open>The hand-off queue\<close>

text \<open>
  The copy loop of \<^verbatim>\<open>i2s_slc_queue_next_item\<close>,
  \<^verbatim>\<open>for(i=0;i<i2s_slc_queue_len;i++) i2s_slc_queue[i] = i2s_slc_queue[i+1];\<close>
  from counter \<open>i\<close> on, with \<open>n\<close> the length after the decrement. The array has
  \<open>SLC_BUF_CNT - 1\<close> slots, so reading slot \<open>i + 1\<close> is checked. The counter is a
  \<^verbatim>\<open>uint8_t\<close> below \<open>n \<le> 255\<close> and cannot wrap.
\<close>

function queue_shift :: "nat \<Rightarrow> nat \<Rightarrow> (nat \<Rightarrow> u32) \<Rightarrow> fault + (nat \<Rightarrow> u32)" where
  "queue_shift i n q =
     (if i < n then
        (if i + 1 < SLC_BUF_CNT - 1 then queue_shift (i + 1) n (q(i := q (i + 1)))
         else Inl Queue_Overrun)
      else Inr q)"
  by pat_completeness auto
termination
  by (relation "measure (\<lambda>(i, n, q). n - i)") auto

declare queue_shift.simps [simp del]

text \<open>
  \<^verbatim>\<open>i2s_slc_queue_next_item\<close>: take slot 0, decrement the 8-bit length (no test for zero:
  \<open>0 - 1 = 255\<close>), move the other entries down.
\<close>

definition i2s_slc_queue_next_item :: "slc_state \<Rightarrow> fault + (u32 \<times> slc_state)" where
  "i2s_slc_queue_next_item s =
     (let item = i2s_slc_queue s 0;
          len = i2s_slc_queue_len s - 1
      in case queue_shift 0 (unat len) (i2s_slc_queue s) of
           Inl f \<Rightarrow> Inl f
         | Inr q \<Rightarrow> Inr (item, s\<lparr>i2s_slc_queue := q, i2s_slc_queue_len := len\<rparr>))"

text \<open>The entries the queue holds, oldest first.\<close>

definition queued :: "slc_state \<Rightarrow> u32 list" where
  "queued s = map (i2s_slc_queue s) [0 ..< unat (i2s_slc_queue_len s)]"

subsection \<open>The completion handler\<close>

text \<open>
  \<^verbatim>\<open>ets_memset(p, c, n)\<close> on the word memory: \<open>n div 4\<close> words from \<open>p\<close> on, each
  holding the byte \<open>c\<close> four times.
\<close>

definition ets_memset :: "u32 \<Rightarrow> u8 \<Rightarrow> nat \<Rightarrow> (u32 \<Rightarrow> u32) \<Rightarrow> (u32 \<Rightarrow> u32)" where
  "ets_memset p c n m =
     fold (\<lambda>k m. m(p + 4 * of_nat k := ucast c * 0x01010101)) [0 ..< n div 4] m"

text \<open>
  \<^verbatim>\<open>i2s_slc_isr\<close>. \<open>rx_eof\<close> is \<^verbatim>\<open>slc_intr_status & SLCIRXEOF\<close>, \<open>finished_item\<close>
  the descriptor that \<^verbatim>\<open>SLCRXEDA\<close> points to. The store
  \<^verbatim>\<open>i2s_slc_queue[i2s_slc_queue_len++]\<close> is checked against the array's
  \<open>SLC_BUF_CNT - 1\<close> slots. The handler runs with the SLC interrupt masked, as one step.
\<close>

definition i2s_slc_isr :: "bool \<Rightarrow> slc_queue_item \<Rightarrow> slc_state \<Rightarrow> fault + slc_state" where
  "i2s_slc_isr rx_eof finished_item s =
     (if rx_eof then
        (let s1 = s\<lparr>ram := ets_memset (buf_ptr finished_item) 0 (SLC_BUF_LEN * 4) (ram s)\<rparr>
         in case (if unat (i2s_slc_queue_len s1) \<ge> SLC_BUF_CNT - 1
                  then map_sum id snd (i2s_slc_queue_next_item s1)
                  else Inr s1) of
              Inl f \<Rightarrow> Inl f
            | Inr s2 \<Rightarrow>
                if unat (i2s_slc_queue_len s2) < SLC_BUF_CNT - 1 then
                  (let s3 = s2\<lparr>i2s_slc_queue :=
                                  (i2s_slc_queue s2)
                                    (unat (i2s_slc_queue_len s2) := buf_ptr finished_item),
                                i2s_slc_queue_len := i2s_slc_queue_len s2 + 1\<rparr>
                   in Inr (if i2s_callback s3
                           then s3\<lparr>callback_runs := callback_runs s3 + 1\<rparr> else s3))
                else Inl Queue_Overrun)
      else Inr s)"

definition i2s_set_callback :: "bool \<Rightarrow> slc_state \<Rightarrow> slc_state" where
  "i2s_set_callback callback s = s\<lparr>i2s_callback := callback\<rparr>"

subsection \<open>Session start\<close>

text \<open>
  \<^verbatim>\<open>i2s_slc_begin\<close> as far as the buffer pool goes: the queue length is reset, and for
  each \<open>x\<close> the buffer is allocated, cleared word by word and described by descriptor
  \<open>x\<close>, which links to the next one and from the last to the first. \<open>malloc_ret x\<close>
  is the address the \<open>x\<close>-th \<^verbatim>\<open>malloc\<close> returns, \<open>item_addr x\<close> the address of
  \<^verbatim>\<open>i2s_slc_items[x]\<close>. The programming of the SLC registers that follows in the C
  function is not part of the model.
\<close>

definition begin_buffer :: "(nat \<Rightarrow> u32) \<Rightarrow> (nat \<Rightarrow> u32) \<Rightarrow> nat \<Rightarrow> slc_state \<Rightarrow> slc_state" where
  "begin_buffer malloc_ret item_addr x s =
     (let p = malloc_ret x;
          m = fold (\<lambda>y m. m(p + 4 * of_nat y := 0)) [0 ..< SLC_BUF_LEN] (ram s);
          item = \<lparr>blocksize = of_nat (SLC_BUF_LEN * 4), datalen = of_nat (SLC_BUF_LEN * 4),
                  unused = 0, sub_sof = 0, eof = 1, owner = 1, buf_ptr = p,
                  next_link_ptr = (if x < SLC_BUF_CNT - 1 then item_addr (x + 1)
                                   else item_addr 0)\<rparr>
      in s\<lparr>i2s_slc_buf_pntr := (i2s_slc_buf_pntr s)(x := p),
            i2s_slc_items := (i2s_slc_items s)(x := item),
            ram := m\<rparr>)"

definition i2s_slc_begin :: "(nat \<Rightarrow> u32) \<Rightarrow> (nat \<Rightarrow> u32) \<Rightarrow> slc_state \<Rightarrow> slc_state" where
  "i2s_slc_begin malloc_ret item_addr s =
     fold (begin_buffer malloc_ret item_addr) [0 ..< SLC_BUF_CNT] (s\<lparr>i2s_slc_queue_len := 0\<rparr>)"

subsection \<open>The sample writers\<close>

text \<open>
  The last two lines of both writers:
  \<^verbatim>\<open>i2s_curr_slc_buf[i2s_curr_slc_buf_pos++]=sample; return true;\<close>
\<close>

definition store_sample :: "u32 \<Rightarrow> slc_state \<Rightarrow> bool \<times> slc_state" where
  "store_sample sample s =
     (True, s\<lparr>ram := (ram s)(i2s_curr_slc_buf s + 4 * i2s_curr_slc_buf_pos s := sample),
              i2s_curr_slc_buf_pos := i2s_curr_slc_buf_pos s + 1\<rparr>)"

text \<open>
  The lines both writers run once a buffer is known to be queued: pop it under the masked
  interrupt, make it the current buffer, start at position 0.
\<close>

definition take_next_buffer :: "slc_state \<Rightarrow> fault + slc_state" where
  "take_next_buffer s =
     (case i2s_slc_queue_next_item s of
        Inl f \<Rightarrow> Inl f
      | Inr (item, s1) \<Rightarrow> Inr (s1\<lparr>i2s_curr_slc_buf := item, i2s_curr_slc_buf_pos := 0\<rparr>))"

definition i2s_write_sample_nb :: "u32 \<Rightarrow> slc_state \<Rightarrow> fault + (bool \<times> slc_state)" where
  "i2s_write_sample_nb sample s =
     (if i2s_curr_slc_buf_pos s = of_nat SLC_BUF_LEN \<or> i2s_curr_slc_buf s = 0 then
        (if i2s_slc_queue_len s = 0 then Inr (False, s)
         else map_sum id (store_sample sample) (take_next_buffer s))
      else Inr (store_sample sample s))"

text \<open>
  The blocking writer waits in \<^verbatim>\<open>while(1)\<close> until the length is positive; only the
  completion handler can make it so. The interrupts that arrive while the writer waits are
  an input: \<open>env\<close> lists, for each call of \<^verbatim>\<open>optimistic_yield\<close>, the descriptors whose
  completion is handled during that call. When the list is used up and the queue is still
  empty no interrupt will ever come, and the loop does not end.
\<close>

fun isr_burst :: "slc_queue_item list \<Rightarrow> slc_state \<Rightarrow> fault + slc_state" where
  "isr_burst [] s = Inr s"
| "isr_burst (d # ds) s =
     (case i2s_slc_isr True d s of Inl f \<Rightarrow> Inl f | Inr s' \<Rightarrow> isr_burst ds s')"

fun wait_for_buffer :: "slc_queue_item list list \<Rightarrow> slc_state \<Rightarrow> fault + slc_state" where
  "wait_for_buffer [] s =
     (if i2s_slc_queue_len s > 0 then Inr s else Inl Never_Returns)"
| "wait_for_buffer (ds # env) s =
     (if i2s_slc_queue_len s > 0 then Inr s
      else case isr_burst ds s of Inl f \<Rightarrow> Inl f | Inr s' \<Rightarrow> wait_for_buffer env s')"

definition i2s_write_sample ::
  "slc_queue_item list list \<Rightarrow> u32 \<Rightarrow> slc_state \<Rightarrow> fault + (bool \<times> slc_state)" where
  "i2s_write_sample env sample s =
     (if i2s_curr_slc_buf_pos s = of_nat SLC_BUF_LEN \<or> i2s_curr_slc_buf s = 0 then
        (case (if i2s_slc_queue_len s = 0 then wait_for_buffer env s else Inr s) of
           Inl f \<Rightarrow> Inl f
         | Inr s1 \<Rightarrow> map_sum id (store_sample sample) (take_next_buffer s1))
      else Inr (store_sample sample s))"

text \<open>
  \<^verbatim>\<open>i2s_write_lr\<close>: the two \<^verbatim>\<open>int16_t\<close> arguments are promoted to \<^verbatim>\<open>int\<close> (sign
  extended) before they are masked; the shift is the two's complement one of the
  compiler; the \<^verbatim>\<open>int\<close> is passed as \<^verbatim>\<open>uint32_t\<close> with the same bits.
\<close>

definition i2s_write_lr ::
  "slc_queue_item list list \<Rightarrow> i16 \<Rightarrow> i16 \<Rightarrow> slc_state \<Rightarrow> fault + (bool \<times> slc_state)" where
  "i2s_write_lr env left right s =
     (let sample = (scast right :: c_int) AND 0xFFFF;
          sample = push_bit 16 sample;
          sample = sample OR ((scast left :: c_int) AND 0xFFFF)
      in i2s_write_sample env sample s)"

subsection \<open>Runs of the driver\<close>

text \<open>
  What can happen to the buffer manager between session start and stop: the hardware
  completes a descriptor and the handler runs, or the producer calls one of the writers.
  A run stops at the first fault.
\<close>

datatype event =
    Isr slc_queue_item
  | Write_Sample "slc_queue_item list list" u32
  | Write_Sample_Nb u32
  | Write_Lr "slc_queue_item list list" i16 i16

fun step :: "event \<Rightarrow> slc_state \<Rightarrow> fault + slc_state" where
  "step (Isr d) s = i2s_slc_isr True d s"
| "step (Write_Sample env x) s = map_sum id snd (i2s_write_sample env x s)"
| "step (Write_Sample_Nb x) s = map_sum id snd (i2s_write_sample_nb x s)"
| "step (Write_Lr env l r) s = map_sum id snd (i2s_write_lr env l r s)"

fun run :: "event list \<Rightarrow> slc_state \<Rightarrow> fault + slc_state" where
  "run [] s = Inr s"
| "run (e # es) s = (case step e s of Inl f \<Rightarrow> Inl f | Inr s' \<Rightarrow> run es s')"

subsection \<open>Buffers that stay cleared\<close>

text \<open>
  The word addresses of the buffer at \<open>b\<close>; a buffer all of whose words are zero; a queue
  all of whose buffers are.
\<close>

definition buffer_words :: "u32 \<Rightarrow> u32 list" where
  "buffer_words b = map (\<lambda>k. b + 4 * of_nat k) [0 ..< SLC_BUF_LEN]"

definition zeroed :: "slc_state \<Rightarrow> u32 \<Rightarrow> bool" where
  "zeroed s b \<longleftrightarrow> list_all (\<lambda>a. ram s a = 0) (buffer_words b)"

definition queued_zeroed :: "slc_state \<Rightarrow> bool" where
  "queued_zeroed s \<longleftrightarrow> list_all (zeroed s) (queued s)"

text \<open>
  The word a writer has just stored is the one before the cursor. It lies outside the
  queued buffers when no queued buffer has it among its words. (A call of the non-blocking
  writer that stores nothing returns with the queue empty.)
\<close>

definition last_store_outside_queue :: "slc_state \<Rightarrow> bool" where
  "last_store_outside_queue s \<longleftrightarrow>
     list_all (\<lambda>b. i2s_curr_slc_buf s + 4 * (i2s_curr_slc_buf_pos s - 1) \<notin> set (buffer_words b))
       (queued s)"

text \<open>
  A run in which the producer never stores into a buffer while the buffer is queued: after
  every writer call, the word just stored lies outside the queued buffers.
\<close>

fun is_write :: "event \<Rightarrow> bool" where
  "is_write (Isr d) = False"
| "is_write (Write_Sample env x) = True"
| "is_write (Write_Sample_Nb x) = True"
| "is_write (Write_Lr env l r) = True"

fun clean_run :: "event list \<Rightarrow> slc_state \<Rightarrow> bool" where
  "clean_run [] s = True"
| "clean_run (e # es) s =
     (case step e s of
        Inl f \<Rightarrow> True
      | Inr s' \<Rightarrow> (is_write e \<longrightarrow> last_store_outside_queue s') \<and> clean_run es s')"

text \<open>The queue within its bounds and all its buffers cleared.\<close>

definition queue_inv :: "slc_state \<Rightarrow> bool" where
  "queue_inv s \<longleftrightarrow> unat (i2s_slc_queue_len s) \<le> 7 \<and> queued_zeroed s"

section \<open>The sample rate\<close>

subsection \<open>Single precision arithmetic\<close>

text \<open>
  \<^verbatim>\<open>i2s_set_rate\<close> computes with \<^verbatim>\<open>float\<close>. A finite \<^verbatim>\<open>float\<close> is a rational number
  here, and every operation is the exact one followed by rounding to the nearest number
  with a 24-bit significand, ties to the even significand (IEEE 754 binary32 in its
  default rounding, which is what the compiler's software floating point implements; the
  ESP8266 has no floating point unit). The smallest exponent is \<open>-126\<close>, below it the
  spacing stays \<open>2 ^ -149\<close>. Overflow to infinity is not modelled: no value in
  \<^verbatim>\<open>i2s_set_rate\<close> exceeds \<open>2 ^ 32\<close>.
\<close>

function bit_length :: "int \<Rightarrow> int" where
  "bit_length n = (if n \<le> 0 then 0 else 1 + bit_length (n div 2))"
  by pat_completeness auto
termination
  by (relation "measure nat") auto

declare bit_length.simps [simp del]

function pow2 :: "int \<Rightarrow> rat" where
  "pow2 k = (if k = 0 then 1 else if 0 < k then 2 * pow2 (k - 1) else pow2 (k + 1) / 2)"
  by pat_completeness auto
termination
  by (relation "measure (\<lambda>k. nat \<bar>k\<bar>)") auto

declare pow2.simps [simp del]

text \<open>The exponent \<open>e\<close> of a positive number \<open>a\<close>: \<open>2 ^ e \<le> a < 2 ^ (e + 1)\<close>, at least \<open>-126\<close>.\<close>

definition f32_exponent :: "rat \<Rightarrow> int" where
  "f32_exponent a =
     (if 1 \<le> a then bit_length \<lfloor>a\<rfloor> - 1
      else max (- 126) (- bit_length (\<lceil>1 / a\<rceil> - 1)))"

definition round_half_even :: "rat \<Rightarrow> int" where
  "round_half_even x =
     (let f = \<lfloor>x\<rfloor>; r = x - of_int f
      in if r < 1 / 2 then f else if 1 / 2 < r then f + 1 else if even f then f else f + 1)"

definition f32_round :: "rat \<Rightarrow> rat" where
  "f32_round x =
     (if x = 0 then 0
      else let q = pow2 (f32_exponent \<bar>x\<bar> - 23)
           in sgn x * of_int (round_half_even (\<bar>x\<bar> / q)) * q)"

text \<open>The conversion \<^verbatim>\<open>(float)\<close> of a \<^verbatim>\<open>uint32_t\<close>, division and subtraction.\<close>

definition f32_of_u32 :: "u32 \<Rightarrow> rat" where
  "f32_of_u32 n = f32_round (of_int (uint n))"

definition f32_div :: "rat \<Rightarrow> rat \<Rightarrow> rat" where
  "f32_div a b = f32_round (a / b)"

definition f32_sub :: "rat \<Rightarrow> rat \<Rightarrow> rat" where
  "f32_sub a b = f32_round (a - b)"

subsection \<open>The divider search\<close>

text \<open>
  \<^verbatim>\<open>float new_delta = fabs(((float)scaled_base_freq/i/j) - rate);\<close>
  The counters \<open>i\<close> and \<open>j\<close> are \<^verbatim>\<open>uint8_t\<close> between 1 and 63, converted to
  \<^verbatim>\<open>float\<close> without rounding; \<^verbatim>\<open>rate\<close> is converted to \<^verbatim>\<open>float\<close> for the
  subtraction; \<^verbatim>\<open>fabs\<close> is exact.
\<close>

definition new_delta :: "u32 \<Rightarrow> u32 \<Rightarrow> nat \<Rightarrow> nat \<Rightarrow> rat" where
  "new_delta scaled_base_freq rate i j =
     \<bar>f32_sub (f32_div (f32_div (f32_of_u32 scaled_base_freq) (of_nat i)) (of_nat j))
             (f32_of_u32 rate)\<bar>"

text \<open>
  The body of the inner loop, on the triple \<open>(delta_best, sbd_div_best, scd_div_best)\<close>.
\<close>

definition try_dividers ::
  "u32 \<Rightarrow> u32 \<Rightarrow> nat \<Rightarrow> nat \<Rightarrow> rat \<times> nat \<times> nat \<Rightarrow> rat \<times> nat \<times> nat" where
  "try_dividers scaled_base_freq rate i j best =
     (if new_delta scaled_base_freq rate i j < fst best
      then (new_delta scaled_base_freq rate i j, i, j) else best)"

text \<open>
  The two loops, \<^verbatim>\<open>for (uint8_t i=1; i<64; i++) for (uint8_t j=i; j<64; j++)\<close>, from
  \<^verbatim>\<open>delta_best = scaled_base_freq\<close> and the dividers \<open>(1, 1)\<close>.
\<close>

definition search_dividers :: "u32 \<Rightarrow> u32 \<Rightarrow> rat \<times> nat \<times> nat" where
  "search_dividers scaled_base_freq rate =
     fold (\<lambda>i. fold (try_dividers scaled_base_freq rate i) [i ..< 64]) [1 ..< 64]
       (f32_of_u32 scaled_base_freq, 1, 1)"

subsection \<open>Programming the dividers\<close>

text \<open>
  The register layout comes from a header that is not part of the sources; its constants
  are parameters of the model. \<open>I2SBD\<close>, \<open>I2SCD\<close> and \<open>I2SBM\<close> are bit positions, the
  others masks and flags.
\<close>

record i2s_reg =
  I2SBASEFREQ :: u32
  I2SBD :: nat
  I2SBDM :: u32
  I2SCD :: nat
  I2SCDM :: u32
  I2SBM :: nat
  I2SBMM :: u32
  I2STSM :: u32
  I2SRF :: u32
  I2SMR :: u32
  I2SRSM :: u32
  I2SRMS :: u32
  I2STMS :: u32

text \<open>
  The rate state: the static \<^verbatim>\<open>_i2s_sample_rate\<close>, the configuration register
  \<^verbatim>\<open>I2SC\<close>, and the number of times the register has been written.
\<close>

record i2s_state =
  i2s_sample_rate :: u32
  I2SC :: u32
  I2SC_writes :: nat

definition i2s_set_dividers :: "i2s_reg \<Rightarrow> u8 \<Rightarrow> u8 \<Rightarrow> i2s_state \<Rightarrow> i2s_state" where
  "i2s_set_dividers c div1 div2 s =
     (let div1 = div1 AND ucast (I2SBDM c);
          div2 = div2 AND ucast (I2SCDM c);
          r = I2SC s AND NOT (I2STSM c OR push_bit (I2SBM c) (I2SBMM c)
                              OR push_bit (I2SBD c) (I2SBDM c)
                              OR push_bit (I2SCD c) (I2SCDM c));
          r = r OR I2SRF c OR I2SMR c OR I2SRSM c OR I2SRMS c OR I2STMS c
                OR push_bit (I2SBD c) (ucast div1) OR push_bit (I2SCD c) (ucast div2)
      in s\<lparr>I2SC := r, I2SC_writes := I2SC_writes s + 2\<rparr>)"

definition i2s_set_rate :: "i2s_reg \<Rightarrow> u32 \<Rightarrow> i2s_state \<Rightarrow> i2s_state" where
  "i2s_set_rate c rate s =
     (if rate = i2s_sample_rate s then s
      else
        (let s = s\<lparr>i2s_sample_rate := rate\<rparr>;
             scaled_base_freq = I2SBASEFREQ c div 32;
             (delta_best, sbd_div_best, scd_div_best) = search_dividers scaled_base_freq rate
         in i2s_set_dividers c (of_nat sbd_div_best) (of_nat scd_div_best) s))"

subsection \<open>The choice the specification describes\<close>






section \<open>A session for the examples\<close>

text \<open>
  The static variables as the C start-up code leaves them (\<^verbatim>\<open>i2s_curr_slc_buf=NULL\<close>,
  \<^verbatim>\<open>i2s_curr_slc_buf_pos=0\<close>, \<^verbatim>\<open>i2s_callback=0\<close>, the rest zero), eight buffers in
  the heap of the ESP8266, and the state after \<^verbatim>\<open>i2s_slc_begin\<close>.
\<close>

definition boot_state :: slc_state where
  "boot_state =
     \<lparr>i2s_slc_queue = (\<lambda>_. 0), i2s_slc_queue_len = 0, i2s_slc_buf_pntr = (\<lambda>_. 0),
      i2s_slc_items = (\<lambda>_. \<lparr>blocksize = 0, datalen = 0, unused = 0, sub_sof = 0, eof = 0,
                               owner = 0, buf_ptr = 0, next_link_ptr = 0\<rparr>),
      i2s_curr_slc_buf = 0, i2s_curr_slc_buf_pos = 0, i2s_callback = False,
      callback_runs = 0, ram = (\<lambda>_. 0x55AA55AA)\<rparr>"

definition heap_buffer :: "nat \<Rightarrow> u32" where
  "heap_buffer x = 0x3FFF0000 + 0x110 * of_nat x"

definition item_address :: "nat \<Rightarrow> u32" where
  "item_address x = 0x3FFE8400 + 12 * of_nat x"

definition session :: slc_state where
  "session = i2s_slc_begin heap_buffer item_address boot_state"

text \<open>The completion of descriptor \<open>x\<close> of the session's chain.\<close>

definition completion :: "nat \<Rightarrow> event" where
  "completion x = Isr (i2s_slc_items session x)"

text \<open>
  A producer that is lapped by the hardware. The chain is drained in its fixed order
  0, 1, ..., 7, 0, 1, ... whatever the producer does. The producer takes buffer 0 after
  its first completion and writes one sample; then it stalls while the hardware goes once
  round the chain (evicting from the full queue) and on to descriptor 6; then it writes
  the remaining 63 samples of the buffer it still holds, buffer 0, which the handler has
  cleared and queued again in the meantime.
\<close>

definition lapped_producer :: "event list" where
  "lapped_producer =
     [completion 0, Write_Sample_Nb 0x0101]
     @ map completion [1, 2, 3, 4, 5, 6, 7, 0, 1, 2, 3, 4, 5, 6]
     @ map (\<lambda>k. Write_Sample_Nb (0x0101 + of_nat k)) [1 ..< SLC_BUF_LEN]"



text \<open>A queue holding seven entries, and one holding three.\<close>

definition full_queue :: slc_state where
  "full_queue = boot_state\<lparr>i2s_slc_queue := heap_buffer, i2s_slc_queue_len := 7\<rparr>"

definition three_queued :: slc_state where
  "three_queued = boot_state\<lparr>i2s_slc_queue := heap_buffer, i2s_slc_queue_len := 3\<rparr>"

text \<open>
  The register constants of the ESP8266 (base frequency 160 MHz, six-bit dividers at bits
  22 and 16), and the rate state after \<^verbatim>\<open>i2s_begin\<close> has set the rate to 44100 Hz.
\<close>

definition esp8266 :: i2s_reg where
  "esp8266 =
     \<lparr>I2SBASEFREQ = 160000000, I2SBD = 22, I2SBDM = 0x3F, I2SCD = 16, I2SCDM = 0x3F,
      I2SBM = 12, I2SBMM = 0xF, I2STSM = 0x10, I2SRF = 0x40, I2SMR = 0x80, I2SRSM = 0x20,
      I2SRMS = 0x800, I2STMS = 0x400\<rparr>"

definition rate_reset :: i2s_state where
  "rate_reset = \<lparr>i2s_sample_rate = 0, I2SC = 0, I2SC_writes = 0\<rparr>"

definition playing_44100 :: i2s_state where
  "playing_44100 = i2s_set_rate esp8266 44100 rate_reset"

section \<open>Properties of the hand-off queue\<close>

subsection \<open>The copy loop and the pop\<close>

lemma queue_shift_ok:
  "n \<le> 6 \<Longrightarrow> queue_shift i n q = Inr (\<lambda>k. if i \<le> k \<and> k < n then q (k + 1) else q k)"
proof (induction "n - i" arbitrary: i q)
  case 0
  then show ?case by (subst queue_shift.simps) (auto simp: fun_eq_iff)
next
  case (Suc d)
  from Suc(2) have lt: "i < n" and d: "d = n - (i + 1)" by simp_all
  have "queue_shift i n q = queue_shift (i + 1) n (q(i := q (i + 1)))"
    using lt Suc(3) by (subst queue_shift.simps) simp
  also have "\<dots> = Inr (\<lambda>k. if i + 1 \<le> k \<and> k < n then (q(i := q (i + 1))) (k + 1)
                           else (q(i := q (i + 1))) k)"
    by (rule Suc(1) [OF d Suc(3)])
  also have "\<dots> = Inr (\<lambda>k. if i \<le> k \<and> k < n then q (k + 1) else q k)"
    using lt by (auto simp: fun_eq_iff)
  finally show ?case .
qed

lemma queue_shift_overrun:
  "7 \<le> n \<Longrightarrow> i \<le> 6 \<Longrightarrow> queue_shift i n q = Inl Queue_Overrun"
proof (induction "6 - i" arbitrary: i q)
  case 0
  then show ?case by (subst queue_shift.simps) simp
next
  case (Suc d)
  from Suc(2) have lt: "i < 6" and d: "d = 6 - (i + 1)" by simp_all
  have "queue_shift i n q = queue_shift (i + 1) n (q(i := q (i + 1)))"
    using lt Suc(3) by (subst queue_shift.simps) simp
  also have "\<dots> = Inl Queue_Overrun"
    using lt by (intro Suc(1) [OF d Suc(3)]) simp
  finally show ?case .
qed

lemma unat_dec: "(w :: u8) \<noteq> 0 \<Longrightarrow> unat (w - 1) = unat w - 1"
  by (simp add: unat_minus_one)

lemma next_item_ok:
  assumes "i2s_slc_queue_len s \<noteq> 0" "unat (i2s_slc_queue_len s) \<le> 7"
  shows "i2s_slc_queue_next_item s =
    Inr (i2s_slc_queue s 0,
         s\<lparr>i2s_slc_queue := (\<lambda>k. if k < unat (i2s_slc_queue_len s) - 1
                                   then i2s_slc_queue s (k + 1) else i2s_slc_queue s k),
           i2s_slc_queue_len := i2s_slc_queue_len s - 1\<rparr>)"
  using assms by (simp add: i2s_slc_queue_next_item_def Let_def unat_dec queue_shift_ok)

lemma next_item_overrun:
  assumes "i2s_slc_queue_len s = 0 \<or> 7 < unat (i2s_slc_queue_len s)"
  shows "i2s_slc_queue_next_item s = Inl Queue_Overrun"
proof -
  have "7 \<le> unat (i2s_slc_queue_len s - 1)"
  proof (cases "i2s_slc_queue_len s = 0")
    case True
    then show ?thesis by (simp add: unsigned_minus_1_eq_mask mask_eq_exp_minus_1)
  next
    case False
    with assms show ?thesis by (simp add: unat_dec)
  qed
  then show ?thesis
    by (simp add: i2s_slc_queue_next_item_def Let_def queue_shift_overrun)
qed

lemma queued_after_pop:
  assumes "i2s_slc_queue_len s \<noteq> 0"
  shows "queued (s\<lparr>i2s_slc_queue := (\<lambda>k. if k < unat (i2s_slc_queue_len s) - 1
                                   then i2s_slc_queue s (k + 1) else i2s_slc_queue s k),
           i2s_slc_queue_len := i2s_slc_queue_len s - 1\<rparr>) = tl (queued s)"
proof -
  have "unat (i2s_slc_queue_len s) \<noteq> 0" using assms by (simp add: unat_eq_0)
  then show ?thesis
    using assms by (auto simp: queued_def unat_dec intro!: nth_equalityI simp: nth_tl)
qed

lemma queued_after_push:
  assumes "unat (len :: u8) < 7"
  shows "map (q(unat len := b)) [0 ..< unat (len + 1)] = map q [0 ..< unat len] @ [b]"
proof -
  have "unat (len + 1) = unat len + 1"
    using assms by (simp add: unat_word_ariths)
  then show ?thesis by simp
qed

lemma next_item_queued:
  assumes "i2s_slc_queue_len s \<noteq> 0" "unat (i2s_slc_queue_len s) \<le> 7"
      and "i2s_slc_queue_next_item s = Inr (item, s')"
  shows "item = hd (queued s)" "queued s' = tl (queued s)"
    "unat (i2s_slc_queue_len s') = unat (i2s_slc_queue_len s) - 1"
    "ram s' = ram s" "i2s_curr_slc_buf s' = i2s_curr_slc_buf s"
    "i2s_curr_slc_buf_pos s' = i2s_curr_slc_buf_pos s"
proof -
  have ne: "unat (i2s_slc_queue_len s) \<noteq> 0" using assms(1) by (simp add: unat_eq_0)
  note eq = assms(3) [unfolded next_item_ok [OF assms(1,2)]]
  from eq ne show "item = hd (queued s)"
    by (auto simp: queued_def hd_map upt_conv_Cons)
  from eq show "queued s' = tl (queued s)"
    using queued_after_pop [OF assms(1)] by auto
  from eq assms(1) show "unat (i2s_slc_queue_len s') = unat (i2s_slc_queue_len s) - 1"
    by (auto simp: unat_dec)
  from eq show "ram s' = ram s" "i2s_curr_slc_buf s' = i2s_curr_slc_buf s"
    "i2s_curr_slc_buf_pos s' = i2s_curr_slc_buf_pos s" by auto
qed

subsection \<open>The completion handler's push\<close>

lemma isr_result:
  assumes "unat (i2s_slc_queue_len s) \<le> 7"
  shows "\<exists>s'. i2s_slc_isr True d s = Inr s'
     \<and> queued s' = (if unat (i2s_slc_queue_len s) = 7 then tl (queued s) else queued s)
                  @ [buf_ptr d]
     \<and> unat (i2s_slc_queue_len s') =
         (if unat (i2s_slc_queue_len s) = 7 then 7 else unat (i2s_slc_queue_len s) + 1)
     \<and> ram s' = ets_memset (buf_ptr d) 0 (SLC_BUF_LEN * 4) (ram s)
     \<and> i2s_curr_slc_buf s' = i2s_curr_slc_buf s
     \<and> i2s_curr_slc_buf_pos s' = i2s_curr_slc_buf_pos s
     \<and> i2s_callback s' = i2s_callback s"
proof (cases "unat (i2s_slc_queue_len s) = 7")
  case True
  let ?s1 = "s\<lparr>ram := ets_memset (buf_ptr d) 0 256 (ram s)\<rparr>"
  have len1: "i2s_slc_queue_len ?s1 \<noteq> 0" "unat (i2s_slc_queue_len ?s1) \<le> 7"
    using True by auto
  obtain item s2 where pop: "i2s_slc_queue_next_item ?s1 = Inr (item, s2)"
    using next_item_ok [OF len1] by blast
  note q = next_item_queued [OF len1 pop]
  have l2: "unat (i2s_slc_queue_len s2) = 6" using q(3) True by simp
  have cb: "i2s_callback s2 = i2s_callback s"
    using pop [unfolded next_item_ok [OF len1]] by auto
  have qs1: "queued ?s1 = queued s" by (simp add: queued_def)
  let ?s3 = "s2\<lparr>i2s_slc_queue := (i2s_slc_queue s2)(unat (i2s_slc_queue_len s2) := buf_ptr d),
                 i2s_slc_queue_len := i2s_slc_queue_len s2 + 1\<rparr>"
  let ?s4 = "if i2s_callback ?s3 then ?s3\<lparr>callback_runs := callback_runs ?s3 + 1\<rparr> else ?s3"
  have res: "i2s_slc_isr True d s = Inr ?s4"
    using True pop l2 by (simp add: i2s_slc_isr_def Let_def)
  have l3: "unat (i2s_slc_queue_len s2 + 1) = 7"
    using l2 by (simp add: unat_word_ariths)
  have q4: "queued ?s4 = queued s2 @ [buf_ptr d]"
    using queued_after_push [of "i2s_slc_queue_len s2" "i2s_slc_queue s2" "buf_ptr d"] l2
    by (simp add: queued_def)
  have "queued ?s4 = tl (queued s) @ [buf_ptr d]"
    using q4 q(2) qs1 by simp
  moreover have "unat (i2s_slc_queue_len ?s4) = 7" using l3 by simp
  moreover have "ram ?s4 = ets_memset (buf_ptr d) 0 256 (ram s)" using q(4) by simp
  moreover have "i2s_curr_slc_buf ?s4 = i2s_curr_slc_buf s" using q(5) by simp
  moreover have "i2s_curr_slc_buf_pos ?s4 = i2s_curr_slc_buf_pos s" using q(6) by simp
  moreover have "i2s_callback ?s4 = i2s_callback s" using cb by simp
  ultimately show ?thesis using True res by simp
next
  case False
  with assms have lt: "unat (i2s_slc_queue_len s) < 7" by simp
  let ?s1 = "s\<lparr>ram := ets_memset (buf_ptr d) 0 256 (ram s)\<rparr>"
  let ?s3 = "?s1\<lparr>i2s_slc_queue := (i2s_slc_queue s)(unat (i2s_slc_queue_len s) := buf_ptr d),
                 i2s_slc_queue_len := i2s_slc_queue_len s + 1\<rparr>"
  let ?s4 = "if i2s_callback ?s3 then ?s3\<lparr>callback_runs := callback_runs ?s3 + 1\<rparr> else ?s3"
  have res: "i2s_slc_isr True d s = Inr ?s4"
    using lt by (simp add: i2s_slc_isr_def Let_def)
  have l3: "unat (i2s_slc_queue_len s + 1) = unat (i2s_slc_queue_len s) + 1"
    using lt by (simp add: unat_word_ariths)
  have q4: "queued ?s4 = queued s @ [buf_ptr d]"
    using queued_after_push [of "i2s_slc_queue_len s" "i2s_slc_queue s" "buf_ptr d"] lt
    by (simp add: queued_def)
  show ?thesis using False res l3 q4 by simp
qed

subsection \<open>The queue length along a run\<close>

lemma take_next_buffer_result:
  assumes "i2s_slc_queue_len s \<noteq> 0" "unat (i2s_slc_queue_len s) \<le> 7"
  shows "\<exists>s'. take_next_buffer s = Inr s'
     \<and> queued s' = tl (queued s)
     \<and> unat (i2s_slc_queue_len s') = unat (i2s_slc_queue_len s) - 1
     \<and> i2s_curr_slc_buf s' = hd (queued s)
     \<and> i2s_curr_slc_buf_pos s' = 0
     \<and> ram s' = ram s"
proof -
  obtain item s1 where pop: "i2s_slc_queue_next_item s = Inr (item, s1)"
    using next_item_ok [OF assms] by blast
  note q = next_item_queued [OF assms pop]
  let ?s' = "s1\<lparr>i2s_curr_slc_buf := item, i2s_curr_slc_buf_pos := 0\<rparr>"
  have "take_next_buffer s = Inr ?s'" using pop by (simp add: take_next_buffer_def)
  moreover have "queued ?s' = tl (queued s)" using q(2) by (simp add: queued_def)
  ultimately show ?thesis using q by simp
qed

lemma store_sample_len [simp]:
  "i2s_slc_queue_len (snd (store_sample x s)) = i2s_slc_queue_len s"
  by (simp add: store_sample_def)

lemma write_sample_nb_len:
  assumes "unat (i2s_slc_queue_len s) \<le> 7"
  shows "\<exists>r s'. i2s_write_sample_nb x s = Inr (r, s')
           \<and> unat (i2s_slc_queue_len s') \<le> unat (i2s_slc_queue_len s)"
proof (cases "(i2s_curr_slc_buf_pos s = 64 \<or> i2s_curr_slc_buf s = 0) \<and> i2s_slc_queue_len s \<noteq> 0")
  case True
  then obtain s1 where "take_next_buffer s = Inr s1"
    "unat (i2s_slc_queue_len s1) = unat (i2s_slc_queue_len s) - 1"
    using take_next_buffer_result [OF _ assms] by blast
  with True show ?thesis
    by (cases "store_sample x s1") (auto simp: i2s_write_sample_nb_def store_sample_def)
next
  case False
  then show ?thesis
    by (cases "store_sample x s") (auto simp: i2s_write_sample_nb_def store_sample_def)
qed

lemma isr_burst_len:
  assumes "unat (i2s_slc_queue_len s) \<le> 7"
  shows "\<exists>s'. isr_burst ds s = Inr s' \<and> unat (i2s_slc_queue_len s') \<le> 7
            \<and> (ds \<noteq> [] \<longrightarrow> i2s_slc_queue_len s' \<noteq> 0)"
  using assms
proof (induction ds arbitrary: s)
  case Nil
  then show ?case by simp
next
  case (Cons d ds)
  obtain s1 where s1: "i2s_slc_isr True d s = Inr s1"
    "unat (i2s_slc_queue_len s1) =
       (if unat (i2s_slc_queue_len s) = 7 then 7 else unat (i2s_slc_queue_len s) + 1)"
    using isr_result [OF Cons.prems, of d] by blast
  then have le: "unat (i2s_slc_queue_len s1) \<le> 7" and ne: "i2s_slc_queue_len s1 \<noteq> 0"
    using Cons.prems by (auto split: if_splits)
  obtain s' where s': "isr_burst ds s1 = Inr s'" "unat (i2s_slc_queue_len s') \<le> 7"
    "ds \<noteq> [] \<longrightarrow> i2s_slc_queue_len s' \<noteq> 0"
    using Cons.IH [OF le] by blast
  show ?case
  proof (cases ds)
    case Nil
    with s1 ne le show ?thesis by simp
  next
    case (Cons a list)
    with s1 s' show ?thesis by simp
  qed
qed

lemma wait_for_buffer_len:
  assumes "unat (i2s_slc_queue_len s) \<le> 7"
  shows "wait_for_buffer env s = Inl Never_Returns
       \<or> (\<exists>s'. wait_for_buffer env s = Inr s' \<and> unat (i2s_slc_queue_len s') \<le> 7
              \<and> i2s_slc_queue_len s' \<noteq> 0)"
  using assms
proof (induction env arbitrary: s)
  case Nil
  then show ?case by (simp add: word_greater_zero_iff)
next
  case (Cons ds env)
  show ?case
  proof (cases "i2s_slc_queue_len s = 0")
    case True
    obtain s1 where s1: "isr_burst ds s = Inr s1" "unat (i2s_slc_queue_len s1) \<le> 7"
      using isr_burst_len [OF Cons.prems] by blast
    with True Cons.IH [OF s1(2)] show ?thesis by simp
  next
    case False
    with Cons.prems show ?thesis by (simp add: word_greater_zero_iff)
  qed
qed

lemma write_sample_len:
  assumes "unat (i2s_slc_queue_len s) \<le> 7"
  shows "i2s_write_sample env x s = Inl Never_Returns
       \<or> (\<exists>s'. i2s_write_sample env x s = Inr (True, s') \<and> unat (i2s_slc_queue_len s') \<le> 7)"
proof (cases "i2s_curr_slc_buf_pos s = 64 \<or> i2s_curr_slc_buf s = 0")
  case exhausted: True
  define w where "w = (if i2s_slc_queue_len s = 0 then wait_for_buffer env s else Inr s)"
  have w: "w = Inl Never_Returns
       \<or> (\<exists>s1. w = Inr s1 \<and> unat (i2s_slc_queue_len s1) \<le> 7 \<and> i2s_slc_queue_len s1 \<noteq> 0)"
    using wait_for_buffer_len [OF assms, of env] assms by (auto simp: w_def)
  have eq: "i2s_write_sample env x s =
      (case w of Inl f \<Rightarrow> Inl f | Inr s1 \<Rightarrow> map_sum id (store_sample x) (take_next_buffer s1))"
    using exhausted by (simp add: i2s_write_sample_def w_def)
  from w show ?thesis
  proof
    assume "w = Inl Never_Returns"
    then show ?thesis by (simp add: eq)
  next
    assume "\<exists>s1. w = Inr s1 \<and> unat (i2s_slc_queue_len s1) \<le> 7 \<and> i2s_slc_queue_len s1 \<noteq> 0"
    then obtain s1 where s1: "w = Inr s1" "unat (i2s_slc_queue_len s1) \<le> 7"
      "i2s_slc_queue_len s1 \<noteq> 0" by blast
    obtain s2 where s2: "take_next_buffer s1 = Inr s2"
      "unat (i2s_slc_queue_len s2) = unat (i2s_slc_queue_len s1) - 1"
      using take_next_buffer_result [OF s1(3,2)] by blast
    have "i2s_write_sample env x s = Inr (store_sample x s2)"
      using s1 s2 by (simp add: eq)
    moreover have "fst (store_sample x s2) = True" by (simp add: store_sample_def)
    moreover have "unat (i2s_slc_queue_len (snd (store_sample x s2))) \<le> 7"
      using s2(2) s1(2) by simp
    ultimately show ?thesis by (cases "store_sample x s2") auto
  qed
next
  case False
  then have "i2s_write_sample env x s = Inr (store_sample x s)"
    by (simp add: i2s_write_sample_def)
  moreover have "fst (store_sample x s) = True" by (simp add: store_sample_def)
  moreover have "unat (i2s_slc_queue_len (snd (store_sample x s))) \<le> 7"
    using assms by simp
  ultimately show ?thesis by (cases "store_sample x s") auto
qed

lemma write_lr_len:
  assumes "unat (i2s_slc_queue_len s) \<le> 7"
  shows "i2s_write_lr env l r s = Inl Never_Returns
       \<or> (\<exists>s'. i2s_write_lr env l r s = Inr (True, s') \<and> unat (i2s_slc_queue_len s') \<le> 7)"
  unfolding i2s_write_lr_def Let_def by (rule write_sample_len [OF assms])

lemma step_len:
  assumes "unat (i2s_slc_queue_len s) \<le> 7"
  shows "step e s = Inl Never_Returns
       \<or> (\<exists>s'. step e s = Inr s' \<and> unat (i2s_slc_queue_len s') \<le> 7)"
proof (cases e)
  case (Isr d)
  then show ?thesis using isr_result [OF assms, of d] assms by (auto split: if_splits)
next
  case (Write_Sample env x)
  then show ?thesis using write_sample_len [OF assms, of env x] by auto
next
  case (Write_Sample_Nb x)
  then show ?thesis using write_sample_nb_len [OF assms, of x] assms by fastforce
next
  case (Write_Lr env l r)
  then show ?thesis
    using write_lr_len [OF assms, of env l r] by auto
qed

lemma run_len:
  assumes "unat (i2s_slc_queue_len s) \<le> 7"
  shows "run es s = Inl Never_Returns
       \<or> (\<exists>s'. run es s = Inr s' \<and> unat (i2s_slc_queue_len s') \<le> 7)"
  using assms
proof (induction es arbitrary: s)
  case Nil
  then show ?case by simp
next
  case (Cons e es)
  from step_len [OF Cons.prems, of e] show ?case
  proof
    assume "step e s = Inl Never_Returns"
    then show ?thesis by simp
  next
    assume "\<exists>s'. step e s = Inr s' \<and> unat (i2s_slc_queue_len s') \<le> 7"
    then obtain s1 where "step e s = Inr s1" "unat (i2s_slc_queue_len s1) \<le> 7" by blast
    with Cons.IH [of s1] show ?thesis by simp
  qed
qed

lemma begin_buffer_len [simp]:
  "i2s_slc_queue_len (begin_buffer malloc_ret item_addr x s) = i2s_slc_queue_len s"
  by (simp add: begin_buffer_def Let_def)

lemma fold_begin_buffer_len [simp]:
  "i2s_slc_queue_len (fold (begin_buffer malloc_ret item_addr) xs s) = i2s_slc_queue_len s"
  by (induction xs arbitrary: s) simp_all

lemma begin_len [simp]: "i2s_slc_queue_len (i2s_slc_begin malloc_ret item_addr s) = 0"
  by (simp add: i2s_slc_begin_def)

subsection \<open>Facts about the example session\<close>

lemma example_states [simp]:
  "i2s_slc_queue_len full_queue = 7" "i2s_slc_queue_len three_queued = 3"
  "queued full_queue = map heap_buffer [0, 1, 2, 3, 4, 5, 6]"
  "queued three_queued = map heap_buffer [0, 1, 2]"
  by (simp_all add: full_queue_def three_queued_def queued_def upt_rec heap_buffer_def)

lemma session_len [simp]: "i2s_slc_queue_len session = 0"
  by (simp add: session_def)

lemma begin_buffer_cursor [simp]:
  "i2s_curr_slc_buf (begin_buffer malloc_ret item_addr x s) = i2s_curr_slc_buf s"
  "i2s_curr_slc_buf_pos (begin_buffer malloc_ret item_addr x s) = i2s_curr_slc_buf_pos s"
  by (simp_all add: begin_buffer_def Let_def)

lemma fold_begin_buffer_cursor [simp]:
  "i2s_curr_slc_buf (fold (begin_buffer malloc_ret item_addr) xs s) = i2s_curr_slc_buf s"
  "i2s_curr_slc_buf_pos (fold (begin_buffer malloc_ret item_addr) xs s) = i2s_curr_slc_buf_pos s"
  by (induction xs arbitrary: s) simp_all

lemma session_cursor [simp]:
  "i2s_curr_slc_buf session = 0" "i2s_curr_slc_buf_pos session = 0"
  by (simp_all add: session_def i2s_slc_begin_def boot_state_def)

subsection \<open>Memory cleared by the handler\<close>

lemma fold_upd_hit:
  "k < n \<Longrightarrow> fold (\<lambda>k m. m(p + 4 * of_nat k := v)) [0 ..< n] m (p + 4 * of_nat k :: u32) = v"
  by (induction n) (auto simp: less_Suc_eq)

lemma ets_memset_hit:
  "k < n div 4 \<Longrightarrow> ets_memset p c n m (p + 4 * of_nat k) = ucast c * 0x01010101"
  by (simp add: ets_memset_def fold_upd_hit)

subsection \<open>Stereo packing\<close>

lemma pack_lr:
  "push_bit 16 ((scast (right :: i16) :: u32) AND 0xFFFF) OR ((scast (left :: i16) :: u32) AND 0xFFFF)
     = word_cat right left"
proof -
  have m: "(0xFFFF :: u32) = mask 16" by (simp add: mask_eq_exp_minus_1)
  show ?thesis unfolding m
    by (rule bit_word_eqI) (auto simp: bit_simps)
qed

lemma cat_high: "ucast (drop_bit 16 (word_cat (right :: i16) (left :: i16) :: u32)) = right"
  by (rule bit_word_eqI) (auto simp: bit_simps)

lemma cat_low: "ucast (word_cat (right :: i16) (left :: i16) :: u32) = left"
  by (rule bit_word_eqI) (auto simp: bit_simps)

subsection \<open>Runs of completions and of writes into the current buffer\<close>

lemma run_append:
  "run (xs @ ys) s = (case run xs s of Inl f \<Rightarrow> Inl f | Inr s' \<Rightarrow> run ys s')"
  by (induction xs arbitrary: s) (auto split: sum.splits)

lemma length_queued [simp]: "length (queued s) = unat (i2s_slc_queue_len s)"
  by (simp add: queued_def)

lemma run_completions:
  assumes "unat (i2s_slc_queue_len s) \<le> 7"
  shows "\<exists>s'. run (map Isr ds) s = Inr s'
     \<and> queued s' = drop (length (queued s) + length ds - 7) (queued s @ map buf_ptr ds)
     \<and> i2s_curr_slc_buf s' = i2s_curr_slc_buf s
     \<and> i2s_curr_slc_buf_pos s' = i2s_curr_slc_buf_pos s"
  using assms
proof (induction ds arbitrary: s)
  case Nil
  then show ?case by simp
next
  case (Cons d ds)
  obtain s1 where s1: "i2s_slc_isr True d s = Inr s1"
    "queued s1 = (if unat (i2s_slc_queue_len s) = 7 then tl (queued s) else queued s) @ [buf_ptr d]"
    "unat (i2s_slc_queue_len s1) =
       (if unat (i2s_slc_queue_len s) = 7 then 7 else unat (i2s_slc_queue_len s) + 1)"
    "i2s_curr_slc_buf s1 = i2s_curr_slc_buf s"
    "i2s_curr_slc_buf_pos s1 = i2s_curr_slc_buf_pos s"
    using isr_result [OF Cons.prems, of d] by blast
  have le: "unat (i2s_slc_queue_len s1) \<le> 7" using s1(3) Cons.prems by (simp split: if_splits)
  obtain s' where s': "run (map Isr ds) s1 = Inr s'"
    "queued s' = drop (length (queued s1) + length ds - 7) (queued s1 @ map buf_ptr ds)"
    "i2s_curr_slc_buf s' = i2s_curr_slc_buf s1"
    "i2s_curr_slc_buf_pos s' = i2s_curr_slc_buf_pos s1"
    using Cons.IH [OF le] by blast
  have "drop (length (queued s1) + length ds - 7) (queued s1 @ map buf_ptr ds)
      = drop (length (queued s) + length (d # ds) - 7) (queued s @ map buf_ptr (d # ds))"
  proof (cases "unat (i2s_slc_queue_len s) = 7")
    case True
    then obtain x q where q: "queued s = x # q" by (cases "queued s") (auto simp: queued_def)
    with True have "length q = 6" using length_queued [of s] by simp
    with True q s1(2) show ?thesis by simp
  next
    case False
    with s1(2) show ?thesis by simp
  qed
  with s1 s' show ?case by simp
qed

lemma word_step_ne: "j < 63 \<Longrightarrow> (c :: u32) + 4 * p \<noteq> c + 4 * (p + 1 + of_nat j)"
proof
  assume j: "j < 63" and "c + 4 * p = c + 4 * (p + 1 + of_nat j)"
  then have "(of_nat (4 * (1 + j)) :: u32) = 0" by (simp add: algebra_simps)
  then have "2 ^ LENGTH(32) dvd 4 * (1 + j)" by (simp only: word_of_nat_eq_0_iff)
  then have "2 ^ 32 dvd 4 * (1 + j)" by simp
  then have "2 ^ 32 \<le> 4 * (1 + j)" by (rule dvd_imp_le) simp
  with j show False by simp
qed

lemma write_nb_inside:
  assumes "i2s_curr_slc_buf s \<noteq> 0" "i2s_curr_slc_buf_pos s \<noteq> 64"
  shows "i2s_write_sample_nb x s = Inr (store_sample x s)"
  using assms by (simp add: i2s_write_sample_nb_def)

lemma run_writes_inside:
  assumes "i2s_curr_slc_buf s \<noteq> 0" "unat (i2s_curr_slc_buf_pos s) + length xs \<le> 64"
  shows "\<exists>s'. run (map Write_Sample_Nb xs) s = Inr s'
      \<and> queued s' = queued s
      \<and> i2s_slc_queue_len s' = i2s_slc_queue_len s
      \<and> i2s_curr_slc_buf s' = i2s_curr_slc_buf s
      \<and> i2s_curr_slc_buf_pos s' = i2s_curr_slc_buf_pos s + of_nat (length xs)
      \<and> (\<forall>a. (\<forall>j < length xs. a \<noteq> i2s_curr_slc_buf s + 4 * (i2s_curr_slc_buf_pos s + of_nat j))
             \<longrightarrow> ram s' a = ram s a)"
  using assms
proof (induction xs arbitrary: s)
  case Nil
  then show ?case by simp
next
  case (Cons x xs)
  let ?s1 = "snd (store_sample x s)"
  have lt: "unat (i2s_curr_slc_buf_pos s) < 64" using Cons.prems(2) by simp
  then have ne: "i2s_curr_slc_buf_pos s \<noteq> 64" by auto
  have step: "step (Write_Sample_Nb x) s = Inr ?s1"
    using write_nb_inside [OF Cons.prems(1) ne] by simp
  have pos1: "i2s_curr_slc_buf_pos ?s1 = i2s_curr_slc_buf_pos s + 1"
    and cur1: "i2s_curr_slc_buf ?s1 = i2s_curr_slc_buf s"
    and q1: "queued ?s1 = queued s"
    and ram1: "ram ?s1 = (ram s)(i2s_curr_slc_buf s + 4 * i2s_curr_slc_buf_pos s := x)"
    by (simp_all add: store_sample_def queued_def)
  have upos1: "unat (i2s_curr_slc_buf_pos ?s1) = unat (i2s_curr_slc_buf_pos s) + 1"
    using lt by (simp add: pos1 unat_word_ariths)
  obtain s' where s': "run (map Write_Sample_Nb xs) ?s1 = Inr s'"
    "queued s' = queued ?s1" "i2s_slc_queue_len s' = i2s_slc_queue_len ?s1"
    "i2s_curr_slc_buf s' = i2s_curr_slc_buf ?s1"
    "i2s_curr_slc_buf_pos s' = i2s_curr_slc_buf_pos ?s1 + of_nat (length xs)"
    "\<forall>a. (\<forall>j < length xs. a \<noteq> i2s_curr_slc_buf ?s1 + 4 * (i2s_curr_slc_buf_pos ?s1 + of_nat j))
             \<longrightarrow> ram s' a = ram ?s1 a"
    using Cons.IH [of ?s1] Cons.prems upos1 cur1 by auto
  have frame: "ram s' a = ram s a"
    if a: "\<forall>j < length (x # xs). a \<noteq> i2s_curr_slc_buf s + 4 * (i2s_curr_slc_buf_pos s + of_nat j)"
    for a
  proof -
    have "a \<noteq> i2s_curr_slc_buf s + 4 * i2s_curr_slc_buf_pos s" using a [rule_format, of 0] by simp
    moreover have "\<forall>j < length xs.
        a \<noteq> i2s_curr_slc_buf ?s1 + 4 * (i2s_curr_slc_buf_pos ?s1 + of_nat j)"
    proof (intro allI impI)
      fix j assume "j < length xs"
      then show "a \<noteq> i2s_curr_slc_buf ?s1 + 4 * (i2s_curr_slc_buf_pos ?s1 + of_nat j)"
        using a [rule_format, of "Suc j"] by (simp add: pos1 cur1 algebra_simps)
    qed
    ultimately show ?thesis using s'(6) ram1 by simp
  qed
  have run: "run (map Write_Sample_Nb (x # xs)) s = Inr s'" using step s'(1) by simp
  have "queued s' = queued s" using s'(2) q1 by simp
  moreover have "i2s_slc_queue_len s' = i2s_slc_queue_len s" using s'(3) by simp
  moreover have "i2s_curr_slc_buf s' = i2s_curr_slc_buf s" using s'(4) cur1 by simp
  moreover have "i2s_curr_slc_buf_pos s' = i2s_curr_slc_buf_pos s + of_nat (length (x # xs))"
    using s'(5) pos1 by (simp add: algebra_simps)
  ultimately show ?case using run frame by blast
qed

lemma begin_items:
  "x < n \<Longrightarrow>
   buf_ptr (i2s_slc_items (fold (begin_buffer malloc_ret item_addr) [0 ..< n] s) x) = malloc_ret x"
  by (induction n) (auto simp: begin_buffer_def Let_def less_Suc_eq)

lemma session_items: "x < 8 \<Longrightarrow> buf_ptr (i2s_slc_items session x) = heap_buffer x"
  by (simp add: session_def i2s_slc_begin_def begin_items)

lemma run_writes_first_kept:
  assumes "i2s_curr_slc_buf s \<noteq> 0" "unat (i2s_curr_slc_buf_pos s) + Suc (length xs) \<le> 64"
  shows "\<exists>s'. run (map Write_Sample_Nb (x # xs)) s = Inr s'
      \<and> queued s' = queued s
      \<and> i2s_slc_queue_len s' = i2s_slc_queue_len s
      \<and> i2s_curr_slc_buf s' = i2s_curr_slc_buf s
      \<and> i2s_curr_slc_buf_pos s' = i2s_curr_slc_buf_pos s + of_nat (Suc (length xs))
      \<and> ram s' (i2s_curr_slc_buf s + 4 * i2s_curr_slc_buf_pos s) = x"
proof -
  let ?s1 = "snd (store_sample x s)"
  have lt: "unat (i2s_curr_slc_buf_pos s) < 64" using assms(2) by simp
  then have ne: "i2s_curr_slc_buf_pos s \<noteq> 64" by auto
  have step: "step (Write_Sample_Nb x) s = Inr ?s1"
    using write_nb_inside [OF assms(1) ne] by simp
  have pos1: "i2s_curr_slc_buf_pos ?s1 = i2s_curr_slc_buf_pos s + 1"
    and cur1: "i2s_curr_slc_buf ?s1 = i2s_curr_slc_buf s"
    and q1: "queued ?s1 = queued s"
    and ram1: "ram ?s1 (i2s_curr_slc_buf s + 4 * i2s_curr_slc_buf_pos s) = x"
    by (simp_all add: store_sample_def queued_def)
  have upos1: "unat (i2s_curr_slc_buf_pos ?s1) = unat (i2s_curr_slc_buf_pos s) + 1"
    using lt by (simp add: pos1 unat_word_ariths)
  obtain s' where s': "run (map Write_Sample_Nb xs) ?s1 = Inr s'"
    "queued s' = queued ?s1" "i2s_slc_queue_len s' = i2s_slc_queue_len ?s1"
    "i2s_curr_slc_buf s' = i2s_curr_slc_buf ?s1"
    "i2s_curr_slc_buf_pos s' = i2s_curr_slc_buf_pos ?s1 + of_nat (length xs)"
    "\<forall>a. (\<forall>j < length xs. a \<noteq> i2s_curr_slc_buf ?s1 + 4 * (i2s_curr_slc_buf_pos ?s1 + of_nat j))
             \<longrightarrow> ram s' a = ram ?s1 a"
    using run_writes_inside [of ?s1 xs] assms upos1 cur1 by auto
  have len: "length xs < 64" using assms(2) by simp
  have "\<forall>j < length xs. i2s_curr_slc_buf s + 4 * i2s_curr_slc_buf_pos s
          \<noteq> i2s_curr_slc_buf ?s1 + 4 * (i2s_curr_slc_buf_pos ?s1 + of_nat j)"
    using word_step_ne [of _ "i2s_curr_slc_buf s" "i2s_curr_slc_buf_pos s"] len
    by (simp add: pos1 cur1)
  with s'(6) ram1 have kept: "ram s' (i2s_curr_slc_buf s + 4 * i2s_curr_slc_buf_pos s) = x"
    by simp
  have run: "run (map Write_Sample_Nb (x # xs)) s = Inr s'" using step s'(1) by simp
  have "queued s' = queued s" using s'(2) q1 by simp
  moreover have "i2s_slc_queue_len s' = i2s_slc_queue_len s" using s'(3) by simp
  moreover have "i2s_curr_slc_buf s' = i2s_curr_slc_buf s" using s'(4) cur1 by simp
  moreover have "i2s_curr_slc_buf_pos s' = i2s_curr_slc_buf_pos s + of_nat (Suc (length xs))"
    using s'(5) pos1 by (simp add: algebra_simps)
  ultimately show ?thesis using run kept by blast
qed

lemma write_nb_takes_buffer:
  assumes "i2s_curr_slc_buf_pos s = 64 \<or> i2s_curr_slc_buf s = 0"
      and "i2s_slc_queue_len s \<noteq> 0" "unat (i2s_slc_queue_len s) \<le> 7"
  shows "\<exists>s'. i2s_write_sample_nb x s = Inr (True, s')
      \<and> queued s' = tl (queued s)
      \<and> i2s_curr_slc_buf s' = hd (queued s)
      \<and> i2s_curr_slc_buf_pos s' = 1
      \<and> ram s' = (ram s)(hd (queued s) := x)"
proof -
  obtain s1 where s1: "take_next_buffer s = Inr s1" "queued s1 = tl (queued s)"
    "i2s_curr_slc_buf s1 = hd (queued s)" "i2s_curr_slc_buf_pos s1 = 0" "ram s1 = ram s"
    using take_next_buffer_result [OF assms(2,3)] by blast
  have "i2s_write_sample_nb x s = Inr (store_sample x s1)"
    using assms(1,2) s1(1) by (simp add: i2s_write_sample_nb_def)
  moreover have "queued (snd (store_sample x s1)) = queued s1"
    by (simp add: store_sample_def queued_def)
  ultimately show ?thesis using s1 by (simp add: store_sample_def)
qed

lemma lapped_producer_state:
  "\<exists>s. run lapped_producer session = Inr s
     \<and> i2s_curr_slc_buf_pos s = 64
     \<and> queued s = map heap_buffer [0, 1, 2, 3, 4, 5, 6]
     \<and> ram s (heap_buffer 0 + 4) = 0x0102"
proof -
  have b0: "heap_buffer 0 \<noteq> 0" by (simp add: heap_buffer_def)
  \<comment> \<open>the first completion and the first write\<close>
  obtain s1 where s1: "i2s_slc_isr True (i2s_slc_items session 0) session = Inr s1"
    "queued s1 = [heap_buffer 0]" "unat (i2s_slc_queue_len s1) = 1"
    "i2s_curr_slc_buf s1 = 0"
    using isr_result [of session "i2s_slc_items session 0"]
    by (auto simp: queued_def session_items)
  from s1(3) have ne1: "i2s_slc_queue_len s1 \<noteq> 0" by auto
  obtain s2 where s2: "i2s_write_sample_nb 0x0101 s1 = Inr (True, s2)" "queued s2 = []"
    "i2s_curr_slc_buf s2 = heap_buffer 0" "i2s_curr_slc_buf_pos s2 = 1"
    using write_nb_takes_buffer [of s1 "0x0101"] s1 ne1 by auto
  have run2: "run [completion 0, Write_Sample_Nb 0x0101] session = Inr s2"
    using s1(1) s2(1) by (simp add: completion_def)
  \<comment> \<open>fifteen completions while the producer stalls\<close>
  let ?ds = "map (i2s_slc_items session) [1, 2, 3, 4, 5, 6, 7, 0, 1, 2, 3, 4, 5, 6]"
  have len2: "unat (i2s_slc_queue_len s2) \<le> 7" using s2(2) length_queued [of s2] by simp
  obtain s3 where s3: "run (map Isr ?ds) s2 = Inr s3"
    "queued s3 = drop (length (queued s2) + length ?ds - 7) (queued s2 @ map buf_ptr ?ds)"
    "i2s_curr_slc_buf s3 = i2s_curr_slc_buf s2"
    "i2s_curr_slc_buf_pos s3 = i2s_curr_slc_buf_pos s2"
    using run_completions [OF len2, of ?ds] by blast
  have q3: "queued s3 = map heap_buffer [0, 1, 2, 3, 4, 5, 6]"
    using s3(2) s2(2) by (simp add: session_items)
  have run3: "run (map completion [1, 2, 3, 4, 5, 6, 7, 0, 1, 2, 3, 4, 5, 6]) s2 = Inr s3"
    using s3(1) by (simp add: completion_def)
  \<comment> \<open>the other 63 samples\<close>
  let ?xs = "map (\<lambda>k. 0x0101 + of_nat k) [Suc 1 ..< 64] :: u32 list"
  have u: "[1 ..< 64] = (1::nat) # [Suc 1 ..< 64]" by (rule upt_conv_Cons) simp
  have xs: "map (\<lambda>k. Write_Sample_Nb (0x0101 + of_nat k)) [1 ..< 64]
      = map Write_Sample_Nb (0x0102 # ?xs)"
    unfolding u by simp
  obtain s4 where s4: "run (map Write_Sample_Nb (0x0102 # ?xs)) s3 = Inr s4"
    "queued s4 = queued s3"
    "i2s_curr_slc_buf_pos s4 = i2s_curr_slc_buf_pos s3 + of_nat (Suc (length ?xs))"
    "ram s4 (i2s_curr_slc_buf s3 + 4 * i2s_curr_slc_buf_pos s3) = 0x0102"
    using run_writes_first_kept [of s3 ?xs "0x0102"] s3(3,4) s2(3,4) b0 by auto
  have "run lapped_producer session = Inr s4"
    unfolding lapped_producer_def xs
    using run2 run3 s4(1) by (simp only: run_append sum.case)
  moreover have "i2s_curr_slc_buf_pos s4 = 64" using s4(3) s3(4) s2(4) by simp
  moreover have "ram s4 (heap_buffer 0 + 4) = 0x0102" using s4(4) s3(3,4) s2(3,4) by simp
  ultimately show ?thesis using s4(2) q3 by simp
qed

subsection \<open>Runs of the non-blocking operations\<close>

lemma nonblocking_step_len:
  assumes "unat (i2s_slc_queue_len s) \<le> 7"
  shows "\<exists>s'. step (case_sum Isr Write_Sample_Nb x) s = Inr s' \<and> unat (i2s_slc_queue_len s') \<le> 7"
proof (cases x)
  case (Inl d)
  then show ?thesis using isr_result [OF assms, of d] assms by (auto split: if_splits)
next
  case (Inr v)
  then show ?thesis using write_sample_nb_len [OF assms, of v] assms by fastforce
qed

lemma nonblocking_run_len:
  assumes "unat (i2s_slc_queue_len s) \<le> 7"
  shows "\<exists>s'. run (map (case_sum Isr Write_Sample_Nb) xs) s = Inr s'
            \<and> unat (i2s_slc_queue_len s') \<le> 7"
  using assms
proof (induction xs arbitrary: s)
  case Nil
  then show ?case by simp
next
  case (Cons x xs)
  obtain s1 where s1: "step (case_sum Isr Write_Sample_Nb x) s = Inr s1"
    "unat (i2s_slc_queue_len s1) \<le> 7"
    using nonblocking_step_len [OF Cons.prems] by blast
  from Cons.IH [OF s1(2)] s1(1) show ?case by simp
qed

subsection \<open>Cleared buffers stay cleared until the producer writes into them\<close>

lemma zeroed_iff: "zeroed s b \<longleftrightarrow> (\<forall>k < 64. ram s (b + 4 * of_nat k) = 0)"
  by (auto simp: zeroed_def buffer_words_def list_all_iff)

lemma queued_zeroed_iff: "queued_zeroed s \<longleftrightarrow> (\<forall>b \<in> set (queued s). zeroed s b)"
  by (simp add: queued_zeroed_def list_all_iff)

lemma in_set_tl: "x \<in> set (tl xs) \<Longrightarrow> x \<in> set xs"
  by (cases xs) auto

lemma fold_upd_zero_or_old:
  "fold (\<lambda>k m. m(p + 4 * of_nat k := 0)) ks m a = 0
   \<or> fold (\<lambda>k m. m(p + 4 * of_nat k := 0)) ks m a = m (a :: u32)"
proof (induction ks arbitrary: m)
  case Nil
  then show ?case by simp
next
  case (Cons k ks)
  from Cons [of "m(p + 4 * of_nat k := 0)"] show ?case by (auto split: if_splits)
qed

lemma ets_memset_zero_or_old: "ets_memset p 0 n m a = 0 \<or> ets_memset p 0 n m a = m a"
  using fold_upd_zero_or_old [of p "[0 ..< n div 4]" m a] by (simp add: ets_memset_def)

lemma ets_memset_keeps_zeroed:
  assumes "zeroed s b" "ram s' = ets_memset p 0 n (ram s)"
  shows "zeroed s' b"
  unfolding zeroed_iff
proof (intro allI impI)
  fix k :: nat assume "k < 64"
  with assms(1) have "ram s (b + 4 * of_nat k) = 0" by (simp add: zeroed_iff)
  with ets_memset_zero_or_old [of p n "ram s" "b + 4 * of_nat k"] assms(2)
  show "ram s' (b + 4 * of_nat k) = 0" by auto
qed

lemma isr_keeps_queued_zeroed:
  assumes "unat (i2s_slc_queue_len s) \<le> 7" "queued_zeroed s"
  shows "\<exists>s'. i2s_slc_isr True d s = Inr s' \<and> unat (i2s_slc_queue_len s') \<le> 7
            \<and> i2s_slc_queue_len s' \<noteq> 0 \<and> queued_zeroed s'"
proof -
  obtain s' where s': "i2s_slc_isr True d s = Inr s'"
    "queued s' = (if unat (i2s_slc_queue_len s) = 7 then tl (queued s) else queued s)
                  @ [buf_ptr d]"
    "unat (i2s_slc_queue_len s') =
         (if unat (i2s_slc_queue_len s) = 7 then 7 else unat (i2s_slc_queue_len s) + 1)"
    "ram s' = ets_memset (buf_ptr d) 0 (SLC_BUF_LEN * 4) (ram s)"
    using isr_result [OF assms(1), of d] by blast
  have new: "zeroed s' (buf_ptr d)"
    unfolding zeroed_iff using ets_memset_hit [of _ 256 "buf_ptr d" 0 "ram s"] s'(4) by simp
  have old: "zeroed s' b" if "b \<in> set (queued s)" for b
    using ets_memset_keeps_zeroed [OF _ s'(4)] assms(2) that by (simp add: queued_zeroed_iff)
  have "set (queued s') \<subseteq> insert (buf_ptr d) (set (queued s))"
    using s'(2) by (auto dest: in_set_tl)
  then have "queued_zeroed s'" using new old by (auto simp: queued_zeroed_iff)
  moreover have "unat (i2s_slc_queue_len s') \<le> 7" "i2s_slc_queue_len s' \<noteq> 0"
    using s'(3) assms(1) by (auto split: if_splits)
  ultimately show ?thesis using s'(1) by blast
qed

lemma take_hands_over_zeroed:
  assumes "i2s_slc_queue_len s \<noteq> 0" "unat (i2s_slc_queue_len s) \<le> 7" "queued_zeroed s"
  shows "\<exists>s'. take_next_buffer s = Inr s'
      \<and> i2s_curr_slc_buf s' = hd (queued s) \<and> i2s_curr_slc_buf_pos s' = 0
      \<and> zeroed s' (i2s_curr_slc_buf s')
      \<and> queued s' = tl (queued s) \<and> ram s' = ram s
      \<and> unat (i2s_slc_queue_len s') \<le> 7 \<and> queued_zeroed s'"
proof -
  obtain s' where s': "take_next_buffer s = Inr s'" "queued s' = tl (queued s)"
    "unat (i2s_slc_queue_len s') = unat (i2s_slc_queue_len s) - 1"
    "i2s_curr_slc_buf s' = hd (queued s)" "i2s_curr_slc_buf_pos s' = 0" "ram s' = ram s"
    using take_next_buffer_result [OF assms(1,2)] by blast
  have ne: "queued s \<noteq> []" using assms(1) by (auto simp: queued_def unat_eq_0)
  have z: "zeroed s' b" if "b \<in> set (queued s)" for b
    using assms(3) that s'(6) by (simp add: queued_zeroed_iff zeroed_iff)
  have "zeroed s' (hd (queued s))" using z ne by simp
  moreover have "queued_zeroed s'"
    using z s'(2) by (auto simp: queued_zeroed_iff dest: in_set_tl)
  ultimately show ?thesis using s' assms(2) by simp
qed

lemma in_buffer_words: "k < 64 \<Longrightarrow> b + 4 * of_nat k \<in> set (buffer_words b)"
  unfolding buffer_words_def set_map set_upt by (rule imageI) simp

lemma store_keeps_queued_zeroed:
  assumes "queued_zeroed s" "last_store_outside_queue (snd (store_sample x s))"
  shows "queued_zeroed (snd (store_sample x s))"
proof -
  let ?s' = "snd (store_sample x s)"
  have q: "queued ?s' = queued s" by (simp add: store_sample_def queued_def)
  have ram: "ram ?s' = (ram s)(i2s_curr_slc_buf s + 4 * i2s_curr_slc_buf_pos s := x)"
    by (simp add: store_sample_def)
  have a: "i2s_curr_slc_buf ?s' + 4 * (i2s_curr_slc_buf_pos ?s' - 1)
      = i2s_curr_slc_buf s + 4 * i2s_curr_slc_buf_pos s"
    by (simp add: store_sample_def)
  have "zeroed ?s' b" if b: "b \<in> set (queued s)" for b
    unfolding zeroed_iff
  proof (intro allI impI)
    fix k :: nat assume k: "k < 64"
    from assms(2) b have "i2s_curr_slc_buf s + 4 * i2s_curr_slc_buf_pos s \<notin> set (buffer_words b)"
      unfolding last_store_outside_queue_def list_all_iff q a by blast
    then have "b + 4 * of_nat k \<noteq> i2s_curr_slc_buf s + 4 * i2s_curr_slc_buf_pos s"
      using in_buffer_words [OF k, of b] by metis
    moreover have "ram s (b + 4 * of_nat k) = 0"
      using assms(1) b k by (simp add: queued_zeroed_iff zeroed_iff)
    ultimately show "ram ?s' (b + 4 * of_nat k) = 0" by (simp add: ram)
  qed
  then show ?thesis by (simp add: queued_zeroed_iff q)
qed

lemma store_inv:
  assumes "queue_inv s" "last_store_outside_queue (snd (store_sample x s))"
  shows "queue_inv (snd (store_sample x s))"
  using assms store_keeps_queued_zeroed [of s x] by (simp add: queue_inv_def)

lemma isr_inv:
  assumes "queue_inv s"
  shows "\<exists>s'. i2s_slc_isr True d s = Inr s' \<and> queue_inv s' \<and> i2s_slc_queue_len s' \<noteq> 0"
  using isr_keeps_queued_zeroed [of s d] assms by (auto simp: queue_inv_def)

lemma isr_burst_inv:
  assumes "queue_inv s"
  shows "\<exists>s'. isr_burst ds s = Inr s' \<and> queue_inv s'"
  using assms
proof (induction ds arbitrary: s)
  case Nil
  then show ?case by simp
next
  case (Cons d ds)
  obtain s1 where "i2s_slc_isr True d s = Inr s1" "queue_inv s1"
    using isr_inv [OF Cons.prems] by blast
  with Cons.IH [of s1] show ?case by simp
qed

lemma wait_for_buffer_inv:
  assumes "queue_inv s"
  shows "wait_for_buffer env s = Inl Never_Returns
       \<or> (\<exists>s'. wait_for_buffer env s = Inr s' \<and> queue_inv s' \<and> i2s_slc_queue_len s' \<noteq> 0)"
  using assms
proof (induction env arbitrary: s)
  case Nil
  then show ?case by (simp add: word_greater_zero_iff)
next
  case (Cons ds env)
  show ?case
  proof (cases "i2s_slc_queue_len s = 0")
    case True
    obtain s1 where s1: "isr_burst ds s = Inr s1" "queue_inv s1"
      using isr_burst_inv [OF Cons.prems] by blast
    with True Cons.IH [OF s1(2)] show ?thesis by simp
  next
    case False
    with Cons.prems show ?thesis by (simp add: word_greater_zero_iff)
  qed
qed

lemma take_inv:
  assumes "queue_inv s" "i2s_slc_queue_len s \<noteq> 0"
  shows "\<exists>s'. take_next_buffer s = Inr s' \<and> queue_inv s'"
  using take_hands_over_zeroed [of s] assms by (auto simp: queue_inv_def)

lemma write_sample_nb_inv:
  assumes "queue_inv s"
  shows "\<exists>r s'. i2s_write_sample_nb x s = Inr (r, s')
           \<and> (last_store_outside_queue s' \<longrightarrow> queue_inv s')"
proof (cases "i2s_curr_slc_buf_pos s = 64 \<or> i2s_curr_slc_buf s = 0")
  case exhausted: True
  show ?thesis
  proof (cases "i2s_slc_queue_len s = 0")
    case True
    with exhausted have "i2s_write_sample_nb x s = Inr (False, s)"
      by (simp add: i2s_write_sample_nb_def)
    with assms show ?thesis by blast
  next
    case False
    obtain s1 where s1: "take_next_buffer s = Inr s1" "queue_inv s1"
      using take_inv [OF assms False] by blast
    have "i2s_write_sample_nb x s = Inr (fst (store_sample x s1), snd (store_sample x s1))"
      using exhausted False s1(1) by (simp add: i2s_write_sample_nb_def)
    with store_inv [OF s1(2), of x] show ?thesis by blast
  qed
next
  case False
  then have "i2s_write_sample_nb x s = Inr (fst (store_sample x s), snd (store_sample x s))"
    by (simp add: i2s_write_sample_nb_def)
  with store_inv [OF assms, of x] show ?thesis by blast
qed

lemma write_sample_inv:
  assumes "queue_inv s"
  shows "i2s_write_sample env x s = Inl Never_Returns
       \<or> (\<exists>r s'. i2s_write_sample env x s = Inr (r, s')
              \<and> (last_store_outside_queue s' \<longrightarrow> queue_inv s'))"
proof (cases "i2s_curr_slc_buf_pos s = 64 \<or> i2s_curr_slc_buf s = 0")
  case exhausted: True
  define w where "w = (if i2s_slc_queue_len s = 0 then wait_for_buffer env s else Inr s)"
  have w: "w = Inl Never_Returns
       \<or> (\<exists>s1. w = Inr s1 \<and> queue_inv s1 \<and> i2s_slc_queue_len s1 \<noteq> 0)"
    using wait_for_buffer_inv [OF assms, of env] assms by (auto simp: w_def)
  have eq: "i2s_write_sample env x s =
      (case w of Inl f \<Rightarrow> Inl f | Inr s1 \<Rightarrow> map_sum id (store_sample x) (take_next_buffer s1))"
    using exhausted by (simp add: i2s_write_sample_def w_def)
  from w show ?thesis
  proof
    assume "w = Inl Never_Returns"
    then show ?thesis by (simp add: eq)
  next
    assume "\<exists>s1. w = Inr s1 \<and> queue_inv s1 \<and> i2s_slc_queue_len s1 \<noteq> 0"
    then obtain s1 where s1: "w = Inr s1" "queue_inv s1" "i2s_slc_queue_len s1 \<noteq> 0" by blast
    obtain s2 where s2: "take_next_buffer s1 = Inr s2" "queue_inv s2"
      using take_inv [OF s1(2,3)] by blast
    have "i2s_write_sample env x s = Inr (fst (store_sample x s2), snd (store_sample x s2))"
      using s1(1) s2(1) by (simp add: eq)
    with store_inv [OF s2(2), of x] show ?thesis by blast
  qed
next
  case False
  then have "i2s_write_sample env x s = Inr (fst (store_sample x s), snd (store_sample x s))"
    by (simp add: i2s_write_sample_def)
  with store_inv [OF assms, of x] show ?thesis by blast
qed

lemma step_inv:
  assumes "queue_inv s"
  shows "step e s = Inl Never_Returns
       \<or> (\<exists>s'. step e s = Inr s' \<and> ((is_write e \<longrightarrow> last_store_outside_queue s') \<longrightarrow> queue_inv s'))"
proof (cases e)
  case (Isr d)
  then show ?thesis using isr_inv [OF assms, of d] by auto
next
  case (Write_Sample env x)
  then show ?thesis using write_sample_inv [OF assms, of env x] by auto
next
  case (Write_Sample_Nb x)
  then show ?thesis using write_sample_nb_inv [OF assms, of x] by auto
next
  case (Write_Lr env l r)
  have "i2s_write_lr env l r s = i2s_write_sample env (word_cat r l) s"
    by (simp only: i2s_write_lr_def Let_def pack_lr)
  with Write_Lr show ?thesis using write_sample_inv [OF assms, of env "word_cat r l"] by auto
qed

lemma clean_run_inv:
  assumes "queue_inv s" "clean_run es s"
  shows "run es s = Inl Never_Returns \<or> (\<exists>s'. run es s = Inr s' \<and> queue_inv s')"
  using assms
proof (induction es arbitrary: s)
  case Nil
  then show ?case by simp
next
  case (Cons e es)
  from step_inv [OF Cons.prems(1), of e] show ?case
  proof
    assume "step e s = Inl Never_Returns"
    then show ?thesis by simp
  next
    assume "\<exists>s'. step e s = Inr s'
       \<and> ((is_write e \<longrightarrow> last_store_outside_queue s') \<longrightarrow> queue_inv s')"
    then obtain s1 where s1: "step e s = Inr s1"
      "(is_write e \<longrightarrow> last_store_outside_queue s1) \<longrightarrow> queue_inv s1" by blast
    from Cons.prems(2) s1(1) have c: "is_write e \<longrightarrow> last_store_outside_queue s1"
      "clean_run es s1" by simp_all
    from s1(2) c(1) have "queue_inv s1" by simp
    from Cons.IH [OF this c(2)] s1(1) show ?thesis by simp
  qed
qed

lemma begin_inv: "queue_inv (i2s_slc_begin malloc_ret item_addr s)"
  by (simp add: queue_inv_def queued_zeroed_def queued_def)

lemma lapped_not_clean: "\<not> clean_run lapped_producer session"
proof
  assume c: "clean_run lapped_producer session"
  obtain s where s: "run lapped_producer session = Inr s"
    "queued s = map heap_buffer [0, 1, 2, 3, 4, 5, 6]" "ram s (heap_buffer 0 + 4) = 0x0102"
    using lapped_producer_state by blast
  from clean_run_inv [OF begin_inv, of lapped_producer heap_buffer item_address boot_state] c s(1)
  have "queue_inv s" by (simp add: session_def)
  then have "zeroed s (heap_buffer 0)" using s(2) by (simp add: queue_inv_def queued_zeroed_iff)
  then have "ram s (heap_buffer 0 + 4 * of_nat 1) = 0" unfolding zeroed_iff by (rule allE [of _ 1]) simp
  with s(3) show False by simp
qed

section \<open>Properties of the sample rate\<close>

subsection \<open>The rate state\<close>

lemma set_dividers_rate [simp]:
  "i2s_sample_rate (i2s_set_dividers c d1 d2 s) = i2s_sample_rate s"
  "I2SC_writes (i2s_set_dividers c d1 d2 s) = I2SC_writes s + 2"
  by (simp_all add: i2s_set_dividers_def Let_def)

lemma set_rate_rate [simp]: "i2s_sample_rate (i2s_set_rate c rate s) = rate"
  by (simp add: i2s_set_rate_def Let_def split: prod.splits)

lemma set_rate_writes:
  "rate \<noteq> i2s_sample_rate s \<Longrightarrow> I2SC_writes (i2s_set_rate c rate s) = I2SC_writes s + 2"
  by (simp add: i2s_set_rate_def Let_def split: prod.splits)

subsection \<open>The two loops as one scan\<close>











subsection \<open>Rounding to single precision\<close>





lemma pow2_powi: "pow2 k = 2 powi k"
proof (induction k rule: pow2.induct)
  case (1 k)
  show ?case
  proof (cases "k = 0")
    case True
    then show ?thesis by (subst pow2.simps) simp
  next
    case nz: False
    show ?thesis
    proof (cases "0 < k")
      case True
      with nz 1(1) have "pow2 (k - 1) = 2 powi (k - 1)" by simp
      moreover have "pow2 k = 2 * pow2 (k - 1)" using nz True by (subst pow2.simps) simp
      moreover have "(2::rat) powi k = 2 * 2 powi (k - 1)"
        using power_int_add_1' [of "2::rat" "k - 1"] by simp
      ultimately show ?thesis by simp
    next
      case False
      with nz 1(2) have "pow2 (k + 1) = 2 powi (k + 1)" by simp
      moreover have "pow2 k = pow2 (k + 1) / 2" using nz False by (subst pow2.simps) simp
      moreover have "(2::rat) powi (k + 1) = 2 * 2 powi k"
        using power_int_add_1' [of "2::rat" "k"] by simp
      ultimately show ?thesis by simp
    qed
  qed
qed





lemma pow2_neg24: "pow2 (- 24) = 1 / 2 ^ 24"
  by (simp add: pow2_powi power_int_def field_simps)






subsection \<open>The computed error against the exact error\<close>






subsection \<open>The search at 8091 Hz and at 44100 Hz\<close>

























section \<open>The claims\<close>

text \<open>
  Claim C1. In every state of the hand-off queue (length at most \<open>SLC_BUF_CNT - 1 = 7\<close>) the
  completion handler's push succeeds: with seven entries queued the oldest is dropped first,
  with fewer nothing is dropped, and in both cases the finished buffer becomes the newest
  entry. The handler has no outcome but the new state: it neither waits nor reports.
\<close>

theorem isr_push_drops_oldest:
  assumes "unat (i2s_slc_queue_len s) \<le> SLC_BUF_CNT - 1"
  shows "\<exists>s'. i2s_slc_isr True finished_item s = Inr s'
           \<and> queued s' = (if unat (i2s_slc_queue_len s) = SLC_BUF_CNT - 1
                           then tl (queued s) else queued s) @ [buf_ptr finished_item]"
  using isr_result [of s finished_item] assms by auto

theorem isr_push_drops_oldest_witness:
  "unat (i2s_slc_queue_len full_queue) \<le> SLC_BUF_CNT - 1
   \<and> (\<exists>s'. i2s_slc_isr True (i2s_slc_items session 7) full_queue = Inr s'
          \<and> queued s' = map heap_buffer [1, 2, 3, 4, 5, 6]
                           @ [buf_ptr (i2s_slc_items session 7)])
   \<and> unat (i2s_slc_queue_len three_queued) \<le> SLC_BUF_CNT - 1
   \<and> (\<exists>s'. i2s_slc_isr True (i2s_slc_items session 7) three_queued = Inr s'
          \<and> queued s' = map heap_buffer [0, 1, 2] @ [buf_ptr (i2s_slc_items session 7)])"
  using isr_push_drops_oldest [of full_queue "i2s_slc_items session 7"]
    isr_push_drops_oldest [of three_queued "i2s_slc_items session 7"]
  by simp

text \<open>
  Claim C2. Whatever sequence of completions and writer calls follows \<^verbatim>\<open>i2s_slc_begin\<close>,
  the run never leaves the queue's range: it does not overrun the queue array, and unless a
  blocking writer waits for ever it ends in a state whose queue length is between 0 and
  \<open>SLC_BUF_CNT - 1 = 7\<close>. A run of completions and non-blocking writes always ends in such
  a state. Every prefix of a run is a run, so the bound holds after each operation.
\<close>

theorem queue_len_in_range:
  "(run es (i2s_slc_begin malloc_ret item_addr s) = Inl Never_Returns
      \<or> (\<exists>s'. run es (i2s_slc_begin malloc_ret item_addr s) = Inr s'
              \<and> unat (i2s_slc_queue_len s') \<le> SLC_BUF_CNT - 1))
   \<and> (\<exists>s'. run (map (case_sum Isr Write_Sample_Nb) xs) (i2s_slc_begin malloc_ret item_addr s)
               = Inr s'
            \<and> unat (i2s_slc_queue_len s') \<le> SLC_BUF_CNT - 1)"
proof -
  have "unat (i2s_slc_queue_len (i2s_slc_begin malloc_ret item_addr s)) \<le> 7" by simp
  from run_len [OF this, of es] nonblocking_run_len [OF this, of xs] show ?thesis by simp
qed

theorem queue_len_in_range_witness:
  "(run [completion 0, Write_Sample [] 1, Write_Sample [] 2] session = Inl Never_Returns
      \<or> (\<exists>s'. run [completion 0, Write_Sample [] 1, Write_Sample [] 2] session = Inr s'
              \<and> unat (i2s_slc_queue_len s') \<le> SLC_BUF_CNT - 1))
   \<and> (\<exists>s'. run (map (case_sum Isr Write_Sample_Nb)
                  [Inl (i2s_slc_items session 0), Inr 1, Inl (i2s_slc_items session 1)]) session
               = Inr s'
            \<and> unat (i2s_slc_queue_len s') \<le> SLC_BUF_CNT - 1)"
  unfolding session_def
  by (rule queue_len_in_range)







text \<open>
  Claim C5. \<^verbatim>\<open>i2s_set_rate\<close> called with the active rate returns the rate state as it
  was: the rate, the register \<^verbatim>\<open>I2SC\<close> and the count of register writes. Called twice
  with the same rate it leaves the state of the first call, and when the rate was not the
  active one the register has been written by the first call only (its two writes).
\<close>

theorem set_rate_same_rate_is_noop:
  "(rate = i2s_sample_rate s \<longrightarrow> i2s_set_rate c rate s = s)
   \<and> i2s_set_rate c rate (i2s_set_rate c rate s) = i2s_set_rate c rate s
   \<and> (rate \<noteq> i2s_sample_rate s \<longrightarrow>
        I2SC_writes (i2s_set_rate c rate s) = I2SC_writes s + 2
        \<and> I2SC_writes (i2s_set_rate c rate (i2s_set_rate c rate s)) = I2SC_writes s + 2)"
proof (intro conjI impI)
  assume "rate = i2s_sample_rate s"
  then show "i2s_set_rate c rate s = s" by (simp add: i2s_set_rate_def)
next
  have "rate = i2s_sample_rate (i2s_set_rate c rate s)" by simp
  then show twice: "i2s_set_rate c rate (i2s_set_rate c rate s) = i2s_set_rate c rate s"
    by (subst i2s_set_rate_def) simp
  assume "rate \<noteq> i2s_sample_rate s"
  then show "I2SC_writes (i2s_set_rate c rate s) = I2SC_writes s + 2"
    by (rule set_rate_writes)
  then show "I2SC_writes (i2s_set_rate c rate (i2s_set_rate c rate s)) = I2SC_writes s + 2"
    by (simp only: twice)
qed

theorem set_rate_same_rate_is_noop_witness:
  "44100 = i2s_sample_rate playing_44100
   \<and> i2s_set_rate esp8266 44100 playing_44100 = playing_44100
   \<and> 44100 \<noteq> i2s_sample_rate rate_reset
   \<and> I2SC_writes (i2s_set_rate esp8266 44100 rate_reset) = 2
   \<and> I2SC_writes (i2s_set_rate esp8266 44100 (i2s_set_rate esp8266 44100 rate_reset)) = 2"
  using set_rate_same_rate_is_noop [of 44100 playing_44100 esp8266]
    set_rate_same_rate_is_noop [of 44100 rate_reset esp8266]
  by (simp add: playing_44100_def rate_reset_def)

text \<open>
  Claim C6, as stated, fails: \<^verbatim>\<open>i2s_slc_queue_next_item\<close> does not test the length. On the
  empty queue of a fresh session it decrements the length from 0 to 255 and its copy loop
  leaves the array.
\<close>

theorem next_item_empty_counterexample:
  "i2s_slc_queue_len session = 0
   \<and> unat (i2s_slc_queue_len session - 1) = 255
   \<and> i2s_slc_queue_next_item session = Inl Queue_Overrun"
  by (simp add: next_item_overrun unsigned_minus_1_eq_mask mask_eq_exp_minus_1)

text \<open>
  Claim C6, as amended. With one to seven entries queued the pop returns the oldest entry
  and leaves the others in order; it has no empty-queue error of its own: called with
  length 0 it runs past the end of the queue array, so the test for emptiness is the
  callers'.
\<close>

theorem next_item_returns_oldest:
  "(i2s_slc_queue_len s \<noteq> 0 \<and> unat (i2s_slc_queue_len s) \<le> SLC_BUF_CNT - 1 \<longrightarrow>
      (\<exists>s'. i2s_slc_queue_next_item s = Inr (hd (queued s), s')
            \<and> queued s' = tl (queued s)))
   \<and> (i2s_slc_queue_len s = 0 \<longrightarrow> i2s_slc_queue_next_item s = Inl Queue_Overrun)"
proof (intro conjI impI)
  assume a: "i2s_slc_queue_len s \<noteq> 0 \<and> unat (i2s_slc_queue_len s) \<le> SLC_BUF_CNT - 1"
  then have a1: "i2s_slc_queue_len s \<noteq> 0" and a2: "unat (i2s_slc_queue_len s) \<le> 7" by simp_all
  obtain item s' where pop: "i2s_slc_queue_next_item s = Inr (item, s')"
    using next_item_ok [OF a1 a2] by blast
  from next_item_queued(1,2) [OF a1 a2 pop] pop
  show "\<exists>s'. i2s_slc_queue_next_item s = Inr (hd (queued s), s') \<and> queued s' = tl (queued s)"
    by auto
next
  assume "i2s_slc_queue_len s = 0"
  then show "i2s_slc_queue_next_item s = Inl Queue_Overrun"
    by (simp add: next_item_overrun)
qed

theorem next_item_returns_oldest_witness:
  "i2s_slc_queue_len three_queued \<noteq> 0 \<and> unat (i2s_slc_queue_len three_queued) \<le> SLC_BUF_CNT - 1
   \<and> (\<exists>s'. i2s_slc_queue_next_item three_queued = Inr (heap_buffer 0, s')
          \<and> queued s' = map heap_buffer [1, 2])
   \<and> i2s_slc_queue_len boot_state = 0
   \<and> i2s_slc_queue_next_item boot_state = Inl Queue_Overrun"
  using next_item_returns_oldest [of three_queued] next_item_returns_oldest [of boot_state]
  by (simp add: boot_state_def)

text \<open>
  Claim C7. When the write cursor is exhausted (position 64) or unset and the queue is
  empty, \<^verbatim>\<open>i2s_write_sample_nb\<close> returns false and the state it leaves is the state it
  found: queue, cursor and memory are untouched.
\<close>

theorem write_sample_nb_starved:
  assumes "i2s_curr_slc_buf_pos s = of_nat SLC_BUF_LEN \<or> i2s_curr_slc_buf s = 0"
      and "i2s_slc_queue_len s = 0"
  shows "i2s_write_sample_nb sample s = Inr (False, s)"
  using assms by (simp add: i2s_write_sample_nb_def)

theorem write_sample_nb_starved_witness:
  "(i2s_curr_slc_buf_pos session = of_nat SLC_BUF_LEN \<or> i2s_curr_slc_buf session = 0)
   \<and> i2s_slc_queue_len session = 0
   \<and> i2s_write_sample_nb 0x12345678 session = Inr (False, session)"
  using write_sample_nb_starved [of session "0x12345678"] by simp

text \<open>
  Claim C8. \<^verbatim>\<open>i2s_write_lr\<close> hands the blocking writer the one word whose bits 16 to 31
  are \<open>right\<close> and whose bits 0 to 15 are \<open>left\<close>, for all 16-bit arguments; for
  \<open>left = 0x1234\<close> and \<open>right = 0x5678\<close> the word is \<open>0x56781234\<close>.
\<close>

theorem write_lr_packs_right_high_left_low:
  "i2s_write_lr env left right s = i2s_write_sample env (word_cat right left) s
   \<and> ucast (drop_bit 16 (word_cat right left :: u32)) = right
   \<and> ucast (word_cat right left :: u32) = left
   \<and> i2s_write_lr env 0x1234 0x5678 s = i2s_write_sample env 0x56781234 s"
proof -
  have "i2s_write_lr env l r s = i2s_write_sample env (word_cat r l) s" for l r
    by (simp only: i2s_write_lr_def Let_def pack_lr)
  moreover have "(word_cat (0x5678 :: i16) (0x1234 :: i16) :: u32) = 0x56781234"
    by (simp add: word_cat_eq)
  ultimately show ?thesis using cat_high [of right left] cat_low [of right left] by simp
qed

text \<open>
  Claim C9. In every state of the queue, \<^verbatim>\<open>i2s_is_empty\<close> is true exactly when the queue
  holds \<open>SLC_BUF_CNT - 1 = 7\<close> entries, and so false whenever it holds fewer.
\<close>

theorem is_empty_iff_seven_queued:
  assumes "unat (i2s_slc_queue_len s) \<le> SLC_BUF_CNT - 1"
  shows "i2s_is_empty s \<longleftrightarrow> length (queued s) = SLC_BUF_CNT - 1"
  using assms by (auto simp: i2s_is_empty_def queued_def)

theorem is_empty_iff_seven_queued_witness:
  "unat (i2s_slc_queue_len full_queue) \<le> SLC_BUF_CNT - 1
   \<and> i2s_is_empty full_queue \<and> length (queued full_queue) = 7
   \<and> unat (i2s_slc_queue_len three_queued) \<le> SLC_BUF_CNT - 1
   \<and> \<not> i2s_is_empty three_queued \<and> length (queued three_queued) = 3"
  using is_empty_iff_seven_queued [of full_queue] is_empty_iff_seven_queued [of three_queued]
  by simp

text \<open>
  Claim C10. The pop itself is unguarded: entered with length 0 it overruns the array after
  wrapping the length to 255. No caller enters it so: from any state of the queue, the
  empty one included, the handler and the three writers never produce the overrun, and no
  run that starts with \<^verbatim>\<open>i2s_slc_begin\<close> does.
\<close>

theorem length_never_underflows:
  "(i2s_slc_queue_len s = 0 \<longrightarrow> i2s_slc_queue_next_item s = Inl Queue_Overrun)
   \<and> (unat (i2s_slc_queue_len s) \<le> SLC_BUF_CNT - 1 \<longrightarrow> step e s \<noteq> Inl Queue_Overrun)
   \<and> run es (i2s_slc_begin malloc_ret item_addr s) \<noteq> Inl Queue_Overrun"
proof (intro conjI impI)
  assume "i2s_slc_queue_len s = 0"
  then show "i2s_slc_queue_next_item s = Inl Queue_Overrun" by (simp add: next_item_overrun)
next
  assume "unat (i2s_slc_queue_len s) \<le> SLC_BUF_CNT - 1"
  then have "unat (i2s_slc_queue_len s) \<le> 7" by simp
  from step_len [OF this, of e] show "step e s \<noteq> Inl Queue_Overrun" by auto
next
  have "unat (i2s_slc_queue_len (i2s_slc_begin malloc_ret item_addr s)) \<le> 7" by simp
  from run_len [OF this, of es]
  show "run es (i2s_slc_begin malloc_ret item_addr s) \<noteq> Inl Queue_Overrun" by auto
qed

theorem length_never_underflows_witness:
  "i2s_slc_queue_len session = 0
   \<and> i2s_slc_queue_next_item session = Inl Queue_Overrun
   \<and> unat (i2s_slc_queue_len session) \<le> SLC_BUF_CNT - 1
   \<and> step (Write_Sample_Nb 1) session \<noteq> Inl Queue_Overrun
   \<and> step (Write_Sample [] 1) session \<noteq> Inl Queue_Overrun
   \<and> step (completion 0) session \<noteq> Inl Queue_Overrun"
  using length_never_underflows [of session "Write_Sample_Nb 1"]
    length_never_underflows [of session "Write_Sample [] 1"]
    length_never_underflows [of session "completion 0"]
  by simp

end
